theory Spec2Isabelle
  imports Main
begin

section \<open>JavaScript strings\<close>

text \<open>
  A JavaScript string is a sequence of UTF-16 code units, here natural numbers (below
  \<open>2^16\<close> in every string the program can hold). All string operations of
  \<^verbatim>\<open>OcrScanner.jsx\<close> (\<^verbatim>\<open>length\<close>, \<^verbatim>\<open>includes\<close>, \<^verbatim>\<open>split\<close>, the regular
  expressions, none of which carries the \<^verbatim>\<open>u\<close> flag) work on code units.
\<close>

type_synonym cu = nat
type_synonym jsstring = "cu list"

definition asc :: "string \<Rightarrow> jsstring" where
  "asc cs = map of_char cs"

definition is_digit :: "cu \<Rightarrow> bool" where
  "is_digit c = (0x30 \<le> c \<and> c \<le> 0x39)"

definition is_upper :: "cu \<Rightarrow> bool" where
  "is_upper c = (0x41 \<le> c \<and> c \<le> 0x5A)"

definition is_lower :: "cu \<Rightarrow> bool" where
  "is_lower c = (0x61 \<le> c \<and> c \<le> 0x7A)"

definition is_alpha :: "cu \<Rightarrow> bool" where
  "is_alpha c = (is_upper c \<or> is_lower c)"

text \<open>\<^verbatim>\<open>\w\<close>: the class \<^verbatim>\<open>[A-Za-z0-9_]\<close>.\<close>

definition is_word :: "cu \<Rightarrow> bool" where
  "is_word c = (is_alpha c \<or> is_digit c \<or> c = 0x5F)"

text \<open>The line terminators: LF, CR, LS, PS. The regular expression \<^verbatim>\<open>.\<close> excludes them.\<close>

definition is_lineterm :: "cu \<Rightarrow> bool" where
  "is_lineterm c = (c = 0x0A \<or> c = 0x0D \<or> c = 0x2028 \<or> c = 0x2029)"

text \<open>
  \<^verbatim>\<open>\s\<close>, and what \<^verbatim>\<open>trim\<close> removes: white space (TAB, VT, FF, the space separators,
  the byte order mark) and the line terminators.
\<close>

definition is_space :: "cu \<Rightarrow> bool" where
  "is_space c = (c = 0x09 \<or> c = 0x0B \<or> c = 0x0C \<or> c = 0x20 \<or> c = 0xA0 \<or> c = 0x1680
     \<or> (0x2000 \<le> c \<and> c \<le> 0x200A) \<or> c = 0x202F \<or> c = 0x205F \<or> c = 0x3000 \<or> c = 0xFEFF
     \<or> is_lineterm c)"

text \<open>
  Case mapping. The program compares lower-cased text only with keywords written in
  ASCII, Tamil and Devanagari, and upper-cases only tokens of ASCII letters and periods.
  \<open>lower_cu\<close> is the Unicode mapping on ASCII and on the two code points outside ASCII
  whose lower case contains an ASCII letter (U+0130, U+212A); \<open>upper_cu\<close> is the mapping
  on ASCII. Every other code unit is left as it is: the platform maps a cased letter
  outside ASCII to letters outside ASCII, Tamil and Devanagari, which no test of the
  program tells apart from the letter itself.
\<close>

definition lower_cu :: "cu \<Rightarrow> jsstring" where
  "lower_cu c = (if is_upper c then [c + 0x20]
     else if c = 0x130 then [0x69, 0x307]
     else if c = 0x212A then [0x6B]
     else [c])"

definition upper_cu :: "cu \<Rightarrow> jsstring" where
  "upper_cu c = (if is_lower c then [c - 0x20] else [c])"

definition toLowerCase :: "jsstring \<Rightarrow> jsstring" where
  "toLowerCase s = concat (map lower_cu s)"

definition toUpperCase :: "jsstring \<Rightarrow> jsstring" where
  "toUpperCase s = concat (map upper_cu s)"

definition trim :: "jsstring \<Rightarrow> jsstring" where
  "trim s = rev (dropWhile is_space (rev (dropWhile is_space s)))"

definition startsWith :: "jsstring \<Rightarrow> jsstring \<Rightarrow> bool" where
  "startsWith s p = (take (length p) s = p)"

text \<open>\<^verbatim>\<open>s.includes(n)\<close>: \<open>n\<close> occurs in \<open>s\<close> at some position.\<close>

fun includesStr :: "jsstring \<Rightarrow> jsstring \<Rightarrow> bool" where
  "includesStr [] n = (n = [])"
| "includesStr (c # cs) n = (startsWith (c # cs) n \<or> includesStr cs n)"

definition substring :: "jsstring \<Rightarrow> nat \<Rightarrow> nat \<Rightarrow> jsstring" where
  "substring s i j = take (j - i) (drop i s)"

text \<open>
  \<^verbatim>\<open>s.split(sep)\<close> for a separator of one code unit (\<^verbatim>\<open>"/"\<close>, \<^verbatim>\<open>"-"\<close>, \<^verbatim>\<open>"."\<close> and
  \<^verbatim>\<open>"\n"\<close> are the only string separators of the program).
\<close>

fun split_chr :: "cu \<Rightarrow> jsstring \<Rightarrow> jsstring list" where
  "split_chr sep [] = [[]]"
| "split_chr sep (c # cs) =
     (if c = sep then [] # split_chr sep cs
      else (case split_chr sep cs of [] \<Rightarrow> [[c]] | p # ps \<Rightarrow> (c # p) # ps))"

fun join :: "jsstring \<Rightarrow> jsstring list \<Rightarrow> jsstring" where
  "join sep [] = []"
| "join sep [w] = w"
| "join sep (w # v # ws) = w @ sep @ join sep (v # ws)"

definition padStart :: "nat \<Rightarrow> jsstring \<Rightarrow> jsstring \<Rightarrow> jsstring" where
  "padStart n fill s =
     (if n \<le> length s \<or> fill = [] then s
      else take (n - length s) (concat (replicate (n - length s) fill)) @ s)"

text \<open>
  \<^verbatim>\<open>parseInt(s, 10)\<close>: leading white space is skipped, one sign is read, then the longest
  run of decimal digits; no digit gives \<^verbatim>\<open>NaN\<close>, here \<open>None\<close>. The value is the exact
  integer: the program only compares it with 1900 and 2020, where the rounding of a
  number beyond \<open>2^53\<close> makes no difference.
\<close>

definition dec_value :: "jsstring \<Rightarrow> int" where
  "dec_value ds = foldl (\<lambda>a d. 10 * a + (int d - 48)) 0 ds"

definition parseInt10 :: "jsstring \<Rightarrow> int option" where
  "parseInt10 s =
     (let t = dropWhile is_space s;
          neg = (t \<noteq> [] \<and> hd t = 0x2D);
          u = (if t \<noteq> [] \<and> (hd t = 0x2D \<or> hd t = 0x2B) then tl t else t);
          ds = takeWhile is_digit u
      in if ds = [] then None else Some (if neg then - dec_value ds else dec_value ds))"

section \<open>Regular expressions\<close>

text \<open>
  The regular expressions of the program use literals, character classes, sequence,
  alternation, greedy quantifiers, capture groups, \<^verbatim>\<open>^\<close>, \<^verbatim>\<open>$\<close> and \<^verbatim>\<open>\b\<close>. \<open>Lit\<close> is a
  literal compared as it is, \<open>LitI\<close> a literal under the \<^verbatim>\<open>i\<close> flag, \<open>Rep lo hi r\<close> the
  greedy \<^verbatim>\<open>r{lo,hi}\<close>, with \<open>None\<close> for no upper bound.
\<close>

datatype rx =
    Eps
  | Cls "cu \<Rightarrow> bool"
  | Lit jsstring
  | LitI jsstring
  | Seq rx rx
  | Alt rx rx
  | Rep nat "nat option" rx
  | Grp nat rx
  | Bol
  | Eol
  | Wordb

abbreviation Star :: "rx \<Rightarrow> rx" where "Star r \<equiv> Rep 0 None r"
abbreviation Plus :: "rx \<Rightarrow> rx" where "Plus r \<equiv> Rep 1 None r"
abbreviation Opt :: "rx \<Rightarrow> rx" where "Opt r \<equiv> Rep 0 (Some 1) r"

fun seqs :: "rx list \<Rightarrow> rx" where
  "seqs [] = Eps"
| "seqs [r] = r"
| "seqs (r # q # rs) = Seq r (seqs (q # rs))"

fun alts :: "rx list \<Rightarrow> rx" where
  "alts [] = Eps"
| "alts [r] = r"
| "alts (r # q # rs) = Alt r (alts (q # rs))"

text \<open>
  Under the \<^verbatim>\<open>i\<close> flag two code units match when their canonical forms (the upper case
  of one code unit) agree; a code unit outside ASCII never matches an ASCII one. A
  class under the flag accepts a code unit when it holds the unit in either case.
\<close>

definition canon :: "cu \<Rightarrow> cu" where
  "canon c = (if is_lower c then c - 0x20 else c)"

definition swap_case :: "cu \<Rightarrow> cu" where
  "swap_case c = (if is_lower c then c - 0x20 else if is_upper c then c + 0x20 else c)"

definition cls_i :: "(cu \<Rightarrow> bool) \<Rightarrow> cu \<Rightarrow> bool" where
  "cls_i P c = (P c \<or> P (swap_case c))"

definition word_at :: "jsstring \<Rightarrow> nat \<Rightarrow> bool" where
  "word_at s i = (i < length s \<and> is_word (s ! i))"

definition word_before :: "jsstring \<Rightarrow> nat \<Rightarrow> bool" where
  "word_before s i = (0 < i \<and> word_at s (i - 1))"

text \<open>
  The matcher is the backtracking matcher of the language definition: a state is the
  end index reached and the captures made; \<open>m r s x\<close> lists, in the order in which
  backtracking tries them, the states in which \<open>r\<close> can end when started in \<open>x\<close>. The
  first element is the match JavaScript reports. An iteration of a quantifier beyond
  its lower bound that consumes nothing is refused, as the language defines, so an
  unbounded quantifier makes at most \<open>length s\<close> iterations beyond its lower bound.
\<close>

type_synonym caps = "nat \<rightharpoonup> nat \<times> nat"
type_synonym mstate = "nat \<times> caps"

fun rep :: "(mstate \<Rightarrow> mstate list) \<Rightarrow> nat \<Rightarrow> nat \<Rightarrow> mstate \<Rightarrow> mstate list" where
  "rep f lo 0 x = (if lo = 0 then [x] else [])"
| "rep f lo (Suc n) x =
     concat (map (rep f (lo - 1) n) (filter (\<lambda>y. 0 < lo \<or> fst y \<noteq> fst x) (f x)))
     @ (if lo = 0 then [x] else [])"

fun m :: "rx \<Rightarrow> jsstring \<Rightarrow> mstate \<Rightarrow> mstate list" where
  "m Eps s x = [x]"
| "m (Cls P) s x =
     (if fst x < length s \<and> P (s ! fst x) then [(Suc (fst x), snd x)] else [])"
| "m (Lit cs) s x =
     (if take (length cs) (drop (fst x) s) = cs then [(fst x + length cs, snd x)] else [])"
| "m (LitI cs) s x =
     (if map canon (take (length cs) (drop (fst x) s)) = map canon cs
      then [(fst x + length cs, snd x)] else [])"
| "m (Seq a b) s x = concat (map (m b s) (m a s x))"
| "m (Alt a b) s x = m a s x @ m b s x"
| "m (Rep lo hi r) s x =
     rep (m r s) lo (case hi of Some h \<Rightarrow> h | None \<Rightarrow> lo + length s) x"
| "m (Grp k r) s x = map (\<lambda>y. (fst y, (snd y)(k \<mapsto> (fst x, fst y)))) (m r s x)"
| "m Bol s x = (if fst x = 0 then [x] else [])"
| "m Eol s x = (if fst x = length s then [x] else [])"
| "m Wordb s x = (if word_before s (fst x) \<noteq> word_at s (fst x) then [x] else [])"

record rmatch =
  mstart :: nat
  mend :: nat
  mcaps :: caps

text \<open>
  \<open>search r s i n\<close> tries the start indices \<open>i\<close>, \<open>i + 1\<close>, ... (\<open>n\<close> of them) and stops
  at the first where \<open>r\<close> matches: \<^verbatim>\<open>exec\<close> of a regular expression that is not sticky.
\<close>

fun search :: "rx \<Rightarrow> jsstring \<Rightarrow> nat \<Rightarrow> nat \<Rightarrow> rmatch option" where
  "search r s i 0 = None"
| "search r s i (Suc n) =
     (case m r s (i, Map.empty) of
        [] \<Rightarrow> search r s (Suc i) n
      | y # _ \<Rightarrow> Some \<lparr>mstart = i, mend = fst y, mcaps = snd y\<rparr>)"

definition exec :: "rx \<Rightarrow> jsstring \<Rightarrow> rmatch option" where
  "exec r s = search r s 0 (Suc (length s))"

definition test :: "rx \<Rightarrow> jsstring \<Rightarrow> bool" where
  "test r s = (exec r s \<noteq> None)"

text \<open>The text of capture group \<open>k\<close> of a match (\<^verbatim>\<open>m[k]\<close>).\<close>

definition grp :: "jsstring \<Rightarrow> rmatch \<Rightarrow> nat \<Rightarrow> jsstring" where
  "grp s mt k = (case mcaps mt k of None \<Rightarrow> [] | Some (i, j) \<Rightarrow> substring s i j)"

text \<open>\<^verbatim>\<open>s.replace(r, rep)\<close> for a regular expression without the \<^verbatim>\<open>g\<close> flag.\<close>

definition replace_first :: "rx \<Rightarrow> jsstring \<Rightarrow> jsstring \<Rightarrow> jsstring" where
  "replace_first r s rp =
     (case exec r s of None \<Rightarrow> s
      | Some mt \<Rightarrow> take (mstart mt) s @ rp @ drop (mend mt) s)"

text \<open>The matcher never moves backwards; the loops below terminate by it.\<close>

lemma rep_mono:
  assumes "\<And>x y. y \<in> set (f x) \<Longrightarrow> fst x \<le> fst y"
  shows "y \<in> set (rep f lo n x) \<Longrightarrow> fst x \<le> fst y"
proof (induction n arbitrary: lo x)
  case 0
  then show ?case by (simp split: if_splits)
next
  case (Suc n)
  from Suc.prems consider
    (iter) z where "z \<in> set (f x)" "y \<in> set (rep f (lo - 1) n z)"
    | (stop) "y = x"
    by (auto split: if_splits)
  then show ?case
  proof cases
    case iter
    with assms Suc.IH show ?thesis by (meson order_trans)
  next
    case stop
    then show ?thesis by simp
  qed
qed

lemma m_mono: "y \<in> set (m r s x) \<Longrightarrow> fst x \<le> fst y"
proof (induction r arbitrary: x y)
  case (Seq a b)
  from Seq.prems obtain z where z: "z \<in> set (m a s x)" "y \<in> set (m b s z)" by auto
  from Seq.IH(1)[OF z(1)] Seq.IH(2)[OF z(2)] show ?case by simp
next
  case (Rep lo hi r)
  from Rep.prems have "y \<in> set (rep (m r s) lo (case hi of Some h \<Rightarrow> h | None \<Rightarrow> lo + length s) x)"
    by simp
  then show ?case by (rule rep_mono[rotated]) (rule Rep.IH)
qed (auto split: if_splits)

lemma search_bounds:
  "search r s i n = Some mt \<Longrightarrow> i \<le> mstart mt \<and> mstart mt < i + n \<and> mstart mt \<le> mend mt"
proof (induction n arbitrary: i)
  case 0
  then show ?case by simp
next
  case (Suc n)
  show ?case
  proof (cases "m r s (i, Map.empty)")
    case Nil
    with Suc.prems have "search r s (Suc i) n = Some mt" by simp
    from Suc.IH[OF this] show ?thesis by simp
  next
    case (Cons y ys)
    with Suc.prems have mt: "mt = \<lparr>mstart = i, mend = fst y, mcaps = snd y\<rparr>" by simp
    from Cons have "y \<in> set (m r s (i, Map.empty))" by simp
    from m_mono[OF this] mt show ?thesis by simp
  qed
qed

text \<open>
  The matches of a regular expression with the \<^verbatim>\<open>g\<close> flag, from index \<open>i\<close> on: each
  search starts where the last match ended, one further after an empty match.
\<close>

function spans_from :: "rx \<Rightarrow> jsstring \<Rightarrow> nat \<Rightarrow> (nat \<times> nat) list" where
  "spans_from r s i =
     (if length s < i then []
      else (case search r s i (Suc (length s) - i) of
              None \<Rightarrow> []
            | Some mt \<Rightarrow> (mstart mt, mend mt)
                # spans_from r s (if mend mt = mstart mt then Suc (mend mt) else mend mt)))"
  by pat_completeness auto
termination
proof (relation "measure (\<lambda>(r, s, i). Suc (length s) - i)")
  show "wf (measure (\<lambda>(r, s, i). Suc (length s) - i))" by simp
next
  fix r :: rx and s :: jsstring and i :: nat and mt :: rmatch
  assume le: "\<not> length s < i" and found: "search r s i (Suc (length s) - i) = Some mt"
  from search_bounds[OF found] have "i \<le> mstart mt" "mstart mt \<le> mend mt" by simp_all
  with le show "((r, s, if mend mt = mstart mt then Suc (mend mt) else mend mt), r, s, i)
      \<in> measure (\<lambda>(r, s, i). Suc (length s) - i)"
    by auto
qed

text \<open>\<^verbatim>\<open>s.match(r)\<close> with the \<^verbatim>\<open>g\<close> flag: the matched texts (\<^verbatim>\<open>null\<close> is the empty list).\<close>

definition match_all :: "rx \<Rightarrow> jsstring \<Rightarrow> jsstring list" where
  "match_all r s = map (\<lambda>(i, j). substring s i j) (spans_from r s 0)"

text \<open>\<^verbatim>\<open>s.replace(r, "")\<close> with the \<^verbatim>\<open>g\<close> flag: the text outside the matches.\<close>

fun cut_spans :: "jsstring \<Rightarrow> nat \<Rightarrow> (nat \<times> nat) list \<Rightarrow> jsstring" where
  "cut_spans s p [] = drop p s"
| "cut_spans s p ((i, j) # sp) = substring s p i @ cut_spans s j sp"

definition remove_all :: "rx \<Rightarrow> jsstring \<Rightarrow> jsstring" where
  "remove_all r s = cut_spans s 0 (spans_from r s 0)"

text \<open>
  \<^verbatim>\<open>s.split(r)\<close>: \<open>p\<close> is the end of the last separator, \<open>q\<close> the index at which a
  separator is tried next; a match that ends at \<open>p\<close> is not a separator.
\<close>

function split_loop :: "rx \<Rightarrow> jsstring \<Rightarrow> nat \<Rightarrow> nat \<Rightarrow> jsstring list" where
  "split_loop r s p q =
     (if q < length s then
        (case m r s (q, Map.empty) of
           [] \<Rightarrow> split_loop r s p (Suc q)
         | y # _ \<Rightarrow>
             (if min (fst y) (length s) = p then split_loop r s p (Suc q)
              else substring s p q
                # split_loop r s (min (fst y) (length s)) (min (fst y) (length s))))
      else [substring s p (length s)])"
  by pat_completeness auto
termination
proof (relation "measure (\<lambda>(r, s, p, q). 2 * (length s - q) + (if p = q then 0 else 1))")
  show "wf (measure (\<lambda>(r, s, p, q). 2 * (length s - q) + (if p = q then 0 else 1)))"
    by simp
next
  fix r :: rx and s :: jsstring and p q :: nat
  assume "q < length s"
  then show "((r, s, p, Suc q), r, s, p, q)
      \<in> measure (\<lambda>(r, s, p, q). 2 * (length s - q) + (if p = q then 0 else 1))"
    by auto
next
  fix r :: rx and s :: jsstring and p q :: nat and y :: mstate and ys :: "mstate list"
  assume "q < length s"
  then show "((r, s, p, Suc q), r, s, p, q)
      \<in> measure (\<lambda>(r, s, p, q). 2 * (length s - q) + (if p = q then 0 else 1))"
    by auto
next
  fix r :: rx and s :: jsstring and p q :: nat and y :: mstate and ys :: "mstate list"
  assume q: "q < length s" and my: "m r s (q, Map.empty) = y # ys"
    and ne: "min (fst y) (length s) \<noteq> p"
  from my have "y \<in> set (m r s (q, Map.empty))" by simp
  from m_mono[OF this] have "q \<le> fst y" by simp
  with q ne show "((r, s, min (fst y) (length s), min (fst y) (length s)), r, s, p, q)
      \<in> measure (\<lambda>(r, s, p, q). 2 * (length s - q) + (if p = q then 0 else 1))"
    by (auto simp: min_def)
qed

definition split_rx :: "rx \<Rightarrow> jsstring \<Rightarrow> jsstring list" where
  "split_rx r s =
     (if s = [] then (if m r s (0, Map.empty) = [] then [[]] else [])
      else split_loop r s 0 0)"

section \<open>The helpers of the scanner\<close>

definition not_found :: jsstring where
  "not_found = asc ''Not found''"

definition tam_aan :: jsstring where
  "tam_aan = [0x0B86, 0x0BA3, 0x0BCD]"

definition tam_pen :: jsstring where
  "tam_pen = [0x0BAA, 0x0BC6, 0x0BA3, 0x0BCD]"

definition tam_paal :: jsstring where
  "tam_paal = [0x0BAA, 0x0BBE, 0x0BB2, 0x0BCD]"

definition tam_pirantha :: jsstring where
  "tam_pirantha = [0x0BAA, 0x0BBF, 0x0BB1, 0x0BA8, 0x0BCD, 0x0BA4]"

definition tam_naal :: jsstring where
  "tam_naal = [0x0BA8, 0x0BBE, 0x0BB3, 0x0BCD]"

definition BLACKLIST :: "jsstring list" where
  "BLACKLIST =
    [asc ''government'', asc ''govt'', asc ''aadhaar'', asc ''aadhar'',
     [0x0906, 0x0927, 0x093E, 0x0930], asc ''uidai'',
     asc ''unique identification'', asc ''india'',
     [0x0B87, 0x0BA8, 0x0BCD, 0x0BA4, 0x0BBF, 0x0BAF],
     [0x0B85, 0x0BB0, 0x0B9A, 0x0BBE, 0x0B99, 0x0BCD, 0x0B95, 0x0BAE, 0x0BCD],
     asc ''issue date'', asc ''issue'', asc ''enrolment'', asc ''enrollment'', asc ''address'',
     asc ''mobile'', asc ''phone'', asc ''dob'', asc ''date of birth'', tam_pirantha,
     asc ''male'', asc ''female'', tam_aan, tam_pen, asc ''help'', asc ''1800'', asc ''www'',
     asc ''http'',
     asc ''time'', asc ''belated'', asc ''epsom'', asc ''solited'', asc ''huet'', asc ''ipe'',
     asc ''tan'', asc ''bbm'',
     asc ''sei'', asc ''sam'', asc ''icici'', asc ''ligpibg'', asc ''sotlingd'', asc ''siren'',
     asc ''ipibg'', asc ''agsimuned'',
     asc ''proof'', asc ''identity'', asc ''citizenship'', asc ''authentication'',
     asc ''election'', asc ''commission'',
     asc ''elector'', asc ''photo'', asc ''birth'', asc ''date'', asc ''age'', asc ''father'',
     asc ''soundar'']"

definition LS_KEY :: jsstring where
  "LS_KEY = asc ''schemelink_ocr_last''"

text \<open>\<^verbatim>\<open>/^[^A-Za-z]+/\<close>\<close>

definition rx_leading_junk :: rx where
  "rx_leading_junk = seqs [Bol, Plus (Cls (\<lambda>c. \<not> is_alpha c))]"

text \<open>\<^verbatim>\<open>/\s+\d{1,2}$/\<close>\<close>

definition rx_trailing_digits :: rx where
  "rx_trailing_digits = seqs [Plus (Cls is_space), Rep 1 (Some 2) (Cls is_digit), Eol]"

text \<open>\<^verbatim>\<open>/^[A-Za-z][A-Za-z\s.]+$/\<close>\<close>

definition rx_name_shape :: rx where
  "rx_name_shape =
     seqs [Bol, Cls is_alpha, Plus (Cls (\<lambda>c. is_alpha c \<or> is_space c \<or> c = 0x2E)), Eol]"

text \<open>\<^verbatim>\<open>/\s+/\<close> and \<^verbatim>\<open>/\./g\<close>\<close>

definition rx_spaces :: rx where
  "rx_spaces = Plus (Cls is_space)"

definition rx_dot :: rx where
  "rx_dot = Cls (\<lambda>c. c = 0x2E)"

definition isName :: "jsstring \<Rightarrow> bool" where
  "isName line =
     (let t = trim (replace_first rx_leading_junk line []);
          t = trim (replace_first rx_trailing_digits t []);
          low = toLowerCase t
      in if list_ex (\<lambda>b. includesStr low b) BLACKLIST then False
         else if \<not> test rx_name_shape t then False
         else if length t < 4 \<or> 50 < length t then False
         else (let words = split_rx rx_spaces t
               in if 2 \<le> length words
                  then list_ex (\<lambda>w. 3 \<le> length (remove_all rx_dot w)) words
                  else 6 \<le> length (hd words)))"

text \<open>
  \<^verbatim>\<open>w[0]\<close> is read only for a word with more than two code units other than periods,
  which is not empty: \<open>take 1 w\<close> is that code unit.
\<close>

definition smartTitle :: "jsstring \<Rightarrow> jsstring" where
  "smartTitle line =
     (let t = trim (replace_first rx_leading_junk line []);
          t = trim (replace_first rx_trailing_digits t [])
      in join (asc '' '')
           (map (\<lambda>w. let c = remove_all rx_dot w
                     in if length c \<le> 2 then toUpperCase w
                        else toUpperCase (take 1 w) @ toLowerCase (drop 1 w))
              (split_rx rx_spaces t)))"

text \<open>\<open>None\<close> is \<^verbatim>\<open>null\<close>. A comparison with \<^verbatim>\<open>NaN\<close> is false.\<close>

definition sanitizeDob :: "jsstring \<Rightarrow> jsstring option" where
  "sanitizeDob raw =
     (let sep = (if includesStr raw (asc ''/'') then 0x2F
                 else if includesStr raw (asc ''-'') then 0x2D else 0x2E);
          parts = split_chr sep raw
      in if length parts \<noteq> 3 then None
         else (let y = parseInt10 (parts ! 2)
               in if (case y of None \<Rightarrow> False | Some v \<Rightarrow> v < 1900 \<or> 2020 < v) then None
                  else Some (padStart 2 (asc ''0'') (parts ! 0) @ asc ''/''
                       @ padStart 2 (asc ''0'') (parts ! 1) @ asc ''/'' @ parts ! 2)))"

text \<open>\<^verbatim>\<open>\d{1,2}[\-\/\.]\d{1,2}[\-\/\.]\d{4}\<close>, the date-shaped token of the three tiers.\<close>

definition is_datesep :: "cu \<Rightarrow> bool" where
  "is_datesep c = (c = 0x2D \<or> c = 0x2F \<or> c = 0x2E)"

definition rx_date_shape :: rx where
  "rx_date_shape =
     seqs [Rep 1 (Some 2) (Cls is_digit), Cls is_datesep, Rep 1 (Some 2) (Cls is_digit),
           Cls is_datesep, Rep 4 (Some 4) (Cls is_digit)]"

text \<open>\<^verbatim>\<open>/(?:DOB|D0B|Date\s*of\s*Birth|Age)\s*[:/\-\s]+(\d{1,2}[\-\/\.]\d{1,2}[\-\/\.]\d{4})/i\<close>\<close>

definition rx_dob_label :: rx where
  "rx_dob_label =
     seqs [alts [LitI (asc ''DOB''), LitI (asc ''D0B''),
                 seqs [LitI (asc ''Date''), Star (Cls is_space), LitI (asc ''of''),
                       Star (Cls is_space), LitI (asc ''Birth'')],
                 LitI (asc ''Age'')],
           Star (Cls is_space),
           Plus (Cls (\<lambda>c. c = 0x3A \<or> c = 0x2F \<or> c = 0x2D \<or> is_space c)),
           Grp 1 rx_date_shape]"

text \<open>The same with the Tamil label, \<^verbatim>\<open>[:/\-]?\<close> between label and date.\<close>

definition rx_dob_label_tamil :: rx where
  "rx_dob_label_tamil =
     seqs [alts [seqs [LitI tam_pirantha, Star (Cls is_space), LitI tam_naal],
                 LitI tam_pirantha],
           Star (Cls is_space),
           Opt (Cls (\<lambda>c. c = 0x3A \<or> c = 0x2F \<or> c = 0x2D)),
           Star (Cls is_space),
           Grp 1 rx_date_shape]"

text \<open>\<^verbatim>\<open>/issue/i\<close> and \<^verbatim>\<open>/\b(\d{1,2}[\-\/\.]\d{1,2}[\-\/\.]\d{4})\b/g\<close>\<close>

definition rx_issue :: rx where
  "rx_issue = LitI (asc ''issue'')"

definition rx_date_token :: rx where
  "rx_date_token = seqs [Wordb, Grp 1 rx_date_shape, Wordb]"

definition labelled_dob :: "rx \<Rightarrow> jsstring \<Rightarrow> jsstring option" where
  "labelled_dob r text =
     (case exec r text of
        None \<Rightarrow> None
      | Some mt \<Rightarrow>
          (case sanitizeDob (grp text mt 1) of
             None \<Rightarrow> None
           | Some s \<Rightarrow> if s \<noteq> [] then Some s else None))"

fun first_sane :: "jsstring list \<Rightarrow> jsstring option" where
  "first_sane [] = None"
| "first_sane (d # ds) =
     (case sanitizeDob d of
        None \<Rightarrow> first_sane ds
      | Some s \<Rightarrow> if s \<noteq> [] then Some s else first_sane ds)"

fun scan_dob_lines :: "jsstring list \<Rightarrow> jsstring" where
  "scan_dob_lines [] = not_found"
| "scan_dob_lines (line # rest) =
     (if test rx_issue line then scan_dob_lines rest
      else (case first_sane (match_all rx_date_token line) of
              None \<Rightarrow> scan_dob_lines rest
            | Some s \<Rightarrow> s))"

definition extractDobFromLines :: "jsstring \<Rightarrow> jsstring list \<Rightarrow> jsstring" where
  "extractDobFromLines text lines =
     (case labelled_dob rx_dob_label text of
        Some s \<Rightarrow> s
      | None \<Rightarrow>
          (case labelled_dob rx_dob_label_tamil text of
             Some s \<Rightarrow> s
           | None \<Rightarrow> scan_dob_lines lines))"

text \<open>The gender expression has eight alternatives and no flag.\<close>

definition rx_gender :: rx where
  "rx_gender =
     seqs [Wordb,
           Grp 1 (alts [Lit (asc ''Male''), Lit (asc ''Female''), Lit (asc ''MALE''),
                        Lit (asc ''FEMALE''), Lit (tam_aan @ tam_paal),
                        Lit (tam_pen @ tam_paal), Lit tam_aan, Lit tam_pen]),
           Wordb]"

definition extractGender :: "jsstring \<Rightarrow> jsstring" where
  "extractGender text =
     (case exec rx_gender text of
        None \<Rightarrow> not_found
      | Some mt \<Rightarrow>
          if startsWith (toLowerCase (grp text mt 1)) (asc ''m'') then asc ''Male''
          else asc ''Female'')"

text \<open>\<^verbatim>\<open>/\b[A-Z]{2,4}\d{6,10}\b/\<close> and \<^verbatim>\<open>/\b\d{4}\s?\d{4}\s?\d{4}\b/\<close>\<close>

definition rx_voter_pattern :: rx where
  "rx_voter_pattern =
     seqs [Wordb, Rep 2 (Some 4) (Cls is_upper), Rep 6 (Some 10) (Cls is_digit), Wordb]"

definition rx_aadhaar_pattern :: rx where
  "rx_aadhaar_pattern =
     seqs [Wordb, Rep 4 (Some 4) (Cls is_digit), Opt (Cls is_space),
           Rep 4 (Some 4) (Cls is_digit), Opt (Cls is_space),
           Rep 4 (Some 4) (Cls is_digit), Wordb]"

definition detectDocType :: "jsstring \<Rightarrow> jsstring" where
  "detectDocType text =
     (let lower = toLowerCase text
      in if includesStr lower (asc ''election'') \<or> includesStr lower (asc ''elector'')
            \<or> includesStr lower (asc ''voter'')
         then asc ''voter''
         else if includesStr lower (asc ''aadhaar'') \<or> includesStr lower (asc ''aadhar'')
            \<or> includesStr lower (asc ''uidai'')
            \<or> includesStr lower (asc ''government of india'')
         then asc ''aadhaar''
         else if test rx_voter_pattern text then asc ''voter''
         else if test rx_aadhaar_pattern text then asc ''aadhaar''
         else asc ''unknown'')"

section \<open>The field extractors\<close>

text \<open>
  A field of the record the extractors return is a string or \<^verbatim>\<open>null\<close>; \<open>Undefined\<close>
  is what reading a key that an object lacks would give.
\<close>

datatype jsval = Undefined | Null | Str jsstring

record ExtractedRecord =
  docType :: jsval
  name :: jsval
  dob :: jsval
  gender :: jsval
  aadhaar :: jsval
  cardNo :: jsval
  fatherName :: jsval

text \<open>\<^verbatim>\<open>/\r?\n/\<close> and \<^verbatim>\<open>/\b(\d{4})\s{0,6}(\d{4})\s{0,6}(\d{4})\b/\<close>\<close>

definition rx_newline :: rx where
  "rx_newline = seqs [Opt (Lit [0x0D]), Lit [0x0A]]"

definition rx_aadhaar_no :: rx where
  "rx_aadhaar_no =
     seqs [Wordb, Grp 1 (Rep 4 (Some 4) (Cls is_digit)), Rep 0 (Some 6) (Cls is_space),
           Grp 2 (Rep 4 (Some 4) (Cls is_digit)), Rep 0 (Some 6) (Cls is_space),
           Grp 3 (Rep 4 (Some 4) (Cls is_digit)), Wordb]"

definition extractAadhaarFields :: "jsstring \<Rightarrow> jsstring \<Rightarrow> ExtractedRecord" where
  "extractAadhaarFields r1Text r2Text =
     (let lines = filter (\<lambda>l. l \<noteq> []) (map trim (split_rx rx_newline r1Text));
          name = (case List.find isName lines of
                    None \<Rightarrow> not_found
                  | Some line \<Rightarrow> smartTitle line);
          dob = extractDobFromLines r1Text lines;
          gender = extractGender r1Text;
          aadhaar = (case exec rx_aadhaar_no r2Text of
                       None \<Rightarrow> not_found
                     | Some am \<Rightarrow> grp r2Text am 1 @ asc '' '' @ grp r2Text am 2
                         @ asc '' '' @ grp r2Text am 3)
      in \<lparr>docType = Str (asc ''Aadhaar Card''), name = Str name, dob = Str dob,
          gender = Str gender, aadhaar = Str aadhaar, cardNo = Null, fatherName = Null\<rparr>)"

text \<open>
  \<^verbatim>\<open>/\b([A-Z]{2,4}\d{6,10})\b/\<close>, \<^verbatim>\<open>/father|soundar/i\<close>,
  \<^verbatim>\<open>/[Nn]ame.{0,3}([A-Z][a-z]+(?:\s+[A-Z][a-z]?)+)/\<close>,
  \<^verbatim>\<open>/Father'?s?\s*N[a-z]*\s*[;:\-]\s*([A-Za-z][A-Za-z\s]{2,30})/i\<close>,
  \<^verbatim>\<open>/[0."'\s]+$/\<close> and \<^verbatim>\<open>/\b(Soundara[a-zA-Z]+)/\<close>
\<close>

definition rx_card_no :: rx where
  "rx_card_no =
     seqs [Wordb, Grp 1 (seqs [Rep 2 (Some 4) (Cls is_upper), Rep 6 (Some 10) (Cls is_digit)]),
           Wordb]"

definition rx_father_line :: rx where
  "rx_father_line = alts [LitI (asc ''father''), LitI (asc ''soundar'')]"

definition rx_voter_name :: rx where
  "rx_voter_name =
     seqs [Cls (\<lambda>c. c = 0x4E \<or> c = 0x6E), Lit (asc ''ame''),
           Rep 0 (Some 3) (Cls (\<lambda>c. \<not> is_lineterm c)),
           Grp 1 (seqs [Cls is_upper, Plus (Cls is_lower),
                        Plus (seqs [Plus (Cls is_space), Cls is_upper, Opt (Cls is_lower)])])]"

definition rx_father_label :: rx where
  "rx_father_label =
     seqs [LitI (asc ''Father''), Opt (Lit [0x27]), Opt (LitI (asc ''s'')),
           Star (Cls is_space), LitI (asc ''N''), Star (Cls (cls_i is_lower)),
           Star (Cls is_space), Cls (\<lambda>c. c = 0x3B \<or> c = 0x3A \<or> c = 0x2D),
           Star (Cls is_space),
           Grp 1 (seqs [Cls (cls_i is_alpha),
                        Rep 2 (Some 30) (Cls (\<lambda>c. cls_i is_alpha c \<or> is_space c))])]"

definition rx_trailing_junk :: rx where
  "rx_trailing_junk =
     seqs [Plus (Cls (\<lambda>c. c = 0x30 \<or> c = 0x2E \<or> c = 0x22 \<or> c = 0x27 \<or> is_space c)), Eol]"

definition rx_soundara :: rx where
  "rx_soundara = seqs [Wordb, Grp 1 (seqs [Lit (asc ''Soundara''), Plus (Cls is_alpha)])]"

text \<open>The loop over the lines that looks for the name; it stops at the first match.\<close>

fun voter_name :: "jsstring list \<Rightarrow> jsstring" where
  "voter_name [] = not_found"
| "voter_name (line # rest) =
     (if test rx_father_line line then voter_name rest
      else (case exec rx_voter_name line of
              None \<Rightarrow> voter_name rest
            | Some mt \<Rightarrow> trim (grp line mt 1)))"

definition extractVoterFields :: "jsstring \<Rightarrow> jsstring \<Rightarrow> ExtractedRecord" where
  "extractVoterFields textOrig text2x =
     (let combined = textOrig @ [0x0A] @ text2x;
          lines = filter (\<lambda>l. l \<noteq> []) (map trim (split_rx rx_newline combined));
          cardNo = (case exec rx_card_no combined of
                      None \<Rightarrow> not_found
                    | Some cardM \<Rightarrow> grp combined cardM 1);
          name = voter_name lines;
          fatherName =
            (case exec rx_father_label combined of
               Some fM \<Rightarrow> replace_first rx_trailing_junk (trim (grp combined fM 1)) []
             | None \<Rightarrow>
                 (case exec rx_soundara combined of
                    None \<Rightarrow> not_found
                  | Some sM \<Rightarrow> grp combined sM 1));
          gender = (if extractGender text2x \<noteq> not_found then extractGender text2x
                    else extractGender textOrig);
          dob = extractDobFromLines textOrig
                  (filter (\<lambda>l. l \<noteq> []) (map trim (split_chr 0x0A textOrig)))
      in \<lparr>docType = Str (asc ''Voter ID''), name = Str name, dob = Str dob,
          gender = Str gender, aadhaar = Null, cardNo = Str cardNo,
          fatherName = Str fatherName\<rparr>)"

section \<open>The cache of the last result\<close>

text \<open>
  \<^verbatim>\<open>localStorage\<close> maps keys to strings. The scanner writes one key, with the text
  \<^verbatim>\<open>JSON.stringify({ result, savedAt })\<close>, and reads it back with \<^verbatim>\<open>JSON.parse\<close>; a
  record of strings and \<^verbatim>\<open>null\<close>s and an integer go through the two unchanged, so an
  item is kept here as the envelope it parses to, \<open>Unparsable\<close> standing for any other
  text (the empty string too). \<open>failing\<close> says that every access to the storage throws;
  both helpers catch what is thrown.
\<close>

datatype stored = Envelope ExtractedRecord int | Unparsable

record storage =
  items :: "jsstring \<rightharpoonup> stored"
  failing :: bool

definition saveLastResult :: "ExtractedRecord \<Rightarrow> int \<Rightarrow> storage \<Rightarrow> storage" where
  "saveLastResult result now st =
     (if failing st then st else st\<lparr>items := (items st)(LS_KEY \<mapsto> Envelope result now)\<rparr>)"

definition loadLastResult :: "int \<Rightarrow> storage \<Rightarrow> ExtractedRecord option \<times> storage" where
  "loadLastResult now st =
     (if failing st then (None, st)
      else (case items st LS_KEY of
              None \<Rightarrow> (None, st)
            | Some Unparsable \<Rightarrow> (None, st)
            | Some (Envelope result savedAt) \<Rightarrow>
                if 24 * 60 * 60 * 1000 < now - savedAt
                then (None, st\<lparr>items := (items st)(LS_KEY := None)\<rparr>)
                else (Some result, st)))"

section \<open>The run\<close>

text \<open>
  What a rejected promise carries is any value: an \<^verbatim>\<open>Error\<close> object with its message, a
  value that has no \<^verbatim>\<open>message\<close> property (a string, say, kept here with its text), or
  \<^verbatim>\<open>null\<close> or \<^verbatim>\<open>undefined\<close>, of which no property can be read.

  The capabilities the run calls are parameters: the two image primitives and the
  recognition, each of which returns its value or throws (\<open>Inl\<close> with what is thrown),
  the clock, and whether the parent passed \<^verbatim>\<open>onExtract\<close>. A rectangle is in
  hundredths of the image. The state is the React state of the component, the storage,
  the records handed to \<^verbatim>\<open>onExtract\<close> and a log of the recognitions made, in order: the
  label of each with the text it returned or the value it threw.
  The progress that the recognition reports while it runs is not part of the model, nor
  is the timer that sets the progress to 0 one second after the handler has ended.
\<close>

datatype thrown = ErrorObject jsstring | PlainString jsstring | Nullish

type_synonym rect = "nat \<times> nat \<times> nat \<times> nat"

record ('f, 'b) env =
  cropToBlob :: "'f \<Rightarrow> rect \<Rightarrow> thrown + 'b"
  enhancedBlob :: "'f \<Rightarrow> nat \<Rightarrow> nat \<Rightarrow> thrown + 'b"
  recognize :: "'b \<Rightarrow> jsstring \<Rightarrow> thrown + jsstring"
  clock :: int
  has_onExtract :: bool

record app =
  ui_result :: "ExtractedRecord option"
  ui_loading :: bool
  ui_stage :: jsstring
  ui_progress :: nat
  ui_statusMsg :: jsstring
  store :: storage
  delivered :: "ExtractedRecord list"
  ocr_log :: "(jsstring \<times> (thrown + jsstring)) list"

definition ocrBlob ::
  "('f, 'b) env \<Rightarrow> 'b \<Rightarrow> jsstring \<Rightarrow> app \<Rightarrow> (thrown + jsstring) \<times> app" where
  "ocrBlob e blob label st =
     (recognize e blob label,
      st\<lparr>ocr_log := ocr_log st @ [(label, recognize e blob label)]\<rparr>)"

definition runVoter ::
  "('f, 'b) env \<Rightarrow> 'f \<Rightarrow> app \<Rightarrow> (thrown + ExtractedRecord) \<times> app" where
  "runVoter e file st0 =
     (let st1 = st0\<lparr>ui_stage := asc ''Scanning Voter ID (standard)...'', ui_progress := 15\<rparr>
      in case cropToBlob e file (0, 0, 100, 100) of
           Inl err \<Rightarrow> (Inl err, st1)
         | Inr origBlob \<Rightarrow>
             (case ocrBlob e origBlob (asc ''voter-orig'') st1 of
                (Inl err, st2) \<Rightarrow> (Inl err, st2)
              | (Inr textOrig, st2) \<Rightarrow>
                  (let st3 = st2\<lparr>ui_stage := asc ''Scanning Voter ID (enhanced)...'',
                                 ui_progress := 50\<rparr>
                   in case enhancedBlob e file 2 180 of
                        Inl err \<Rightarrow> (Inl err, st3)
                      | Inr enh2xBlob \<Rightarrow>
                          (case ocrBlob e enh2xBlob (asc ''voter-2x'') st3 of
                             (Inl err, st4) \<Rightarrow> (Inl err, st4)
                           | (Inr text2x, st4) \<Rightarrow>
                               (Inr (extractVoterFields textOrig text2x),
                                st4\<lparr>ui_progress := 90\<rparr>)))))"

definition runAadhaar ::
  "('f, 'b) env \<Rightarrow> 'f \<Rightarrow> app \<Rightarrow> (thrown + ExtractedRecord) \<times> app" where
  "runAadhaar e file st0 =
     (let st1 = st0\<lparr>ui_stage := asc ''Scanning name & DOB area...'', ui_progress := 15\<rparr>
      in case cropToBlob e file (33, 10, 67, 62) of
           Inl err \<Rightarrow> (Inl err, st1)
         | Inr r1Blob \<Rightarrow>
             (case ocrBlob e r1Blob (asc ''aadhaar-r1'') st1 of
                (Inl err, st2) \<Rightarrow> (Inl err, st2)
              | (Inr r1Text, st2) \<Rightarrow>
                  (let st3 = st2\<lparr>ui_stage := asc ''Scanning Aadhaar number...'',
                                 ui_progress := 62\<rparr>
                   in case cropToBlob e file (5, 72, 90, 12) of
                        Inl err \<Rightarrow> (Inl err, st3)
                      | Inr r2Blob \<Rightarrow>
                          (case ocrBlob e r2Blob (asc ''aadhaar-r2'') st3 of
                             (Inl err, st4) \<Rightarrow> (Inl err, st4)
                           | (Inr r2Text, st4) \<Rightarrow>
                               (Inr (extractAadhaarFields r1Text r2Text),
                                st4\<lparr>ui_progress := 90\<rparr>)))))"

definition runOcr ::
  "('f, 'b) env \<Rightarrow> 'f \<Rightarrow> app \<Rightarrow> (thrown + ExtractedRecord) \<times> app" where
  "runOcr e file st0 =
     (let st1 = st0\<lparr>ui_stage := asc ''Detecting document type...'', ui_progress := 5\<rparr>
      in case cropToBlob e file (0, 0, 100, 22) of
           Inl err \<Rightarrow> (Inl err, st1)
         | Inr detectBlob \<Rightarrow>
             (case ocrBlob e detectBlob (asc ''detect'') st1 of
                (Inl err, st2) \<Rightarrow> (Inl err, st2)
              | (Inr detectText, st2) \<Rightarrow>
                  if detectDocType detectText = asc ''voter'' then runVoter e file st2
                  else runAadhaar e file st2))"

text \<open>
  The number of fields the handler counts as found: \<^verbatim>\<open>v && v !== "Not found"\<close> holds
  of a string that is neither empty nor the sentinel, not of \<^verbatim>\<open>null\<close>.
\<close>

definition counts_as_found :: "jsval \<Rightarrow> bool" where
  "counts_as_found v = (case v of Str t \<Rightarrow> t \<noteq> [] \<and> t \<noteq> not_found | _ \<Rightarrow> False)"

definition found_count :: "ExtractedRecord \<Rightarrow> nat" where
  "found_count r =
     length (filter counts_as_found
       [name r, dob r, gender r, aadhaar r, cardNo r, fatherName r])"

text \<open>A natural number in decimal, as a template literal prints it.\<close>

fun show_nat :: "nat \<Rightarrow> jsstring" where
  "show_nat n = (if n < 10 then [0x30 + of_nat n]
     else show_nat (n div 10) @ [0x30 + of_nat (n mod 10)])"

definition msg_success :: jsstring where
  "msg_success = [0x2705] @ asc '' Extraction successful''"

definition msg_partial :: "nat \<Rightarrow> jsstring" where
  "msg_partial n = [0x26A0, 0xFE0F] @ asc '' Partial: '' @ show_nat n @ asc '' fields found''"

definition msg_poor :: jsstring where
  "msg_poor = [0x274C] @ asc '' Poor image quality '' @ [0x2014]
     @ asc '' try a clearer, well-lit photo''"

text \<open>
  The handler catches what the run throws and sets the status to the cross mark and
  \<^verbatim>\<open>" OCR error: " + err.message\<close>. The property is the message of an \<^verbatim>\<open>Error\<close> object
  and \<^verbatim>\<open>undefined\<close> for a value that has none, which the concatenation prints as the
  word; reading it from \<^verbatim>\<open>null\<close> or \<^verbatim>\<open>undefined\<close> throws inside the handler, and no
  status is set.
\<close>

definition msg_error :: "jsstring \<Rightarrow> jsstring" where
  "msg_error message = [0x274C] @ asc '' OCR error: '' @ message"

definition catch_status :: "thrown \<Rightarrow> jsstring option" where
  "catch_status err =
     (case err of
        ErrorObject message \<Rightarrow> Some (msg_error message)
      | PlainString v \<Rightarrow> Some (msg_error (asc ''undefined''))
      | Nullish \<Rightarrow> None)"

definition handleUpload :: "('f, 'b) env \<Rightarrow> 'f option \<Rightarrow> app \<Rightarrow> app" where
  "handleUpload e fileopt st =
     (case fileopt of
        None \<Rightarrow> st
      | Some file \<Rightarrow>
          (let st1 = st\<lparr>ui_loading := True, ui_result := None, ui_statusMsg := [],
                        ui_progress := 0\<rparr>;
               st3 = (case runOcr e file st1 of
                        (Inr extracted, st2) \<Rightarrow>
                          (let found = found_count extracted
                           in st2\<lparr>ui_result := Some extracted, ui_progress := 100,
                                  store := saveLastResult extracted (clock e) (store st2),
                                  ui_statusMsg :=
                                    (if 4 \<le> found then msg_success
                                     else if 2 \<le> found then msg_partial found
                                     else msg_poor),
                                  delivered := (if has_onExtract e
                                     then delivered st2 @ [extracted] else delivered st2)\<rparr>)
                      | (Inl err, st2) \<Rightarrow>
                          (case catch_status err of
                             None \<Rightarrow> st2
                           | Some status \<Rightarrow> st2\<lparr>ui_statusMsg := status\<rparr>))
           in st3\<lparr>ui_loading := False, ui_stage := []\<rparr>))"

section \<open>Notions used in the statements\<close>

text \<open>
  \<open>run P s i j\<close>: the code units of \<open>s\<close> from index \<open>i\<close> up to, not including, \<open>j\<close> are
  all in the class \<open>P\<close>. \<open>runs\<close>: consecutive runs from \<open>i\<close> to \<open>j\<close>, each of a class and
  with bounds on its length. \<open>boundary\<close> is the test of \<^verbatim>\<open>\b\<close>.
\<close>

definition run :: "(cu \<Rightarrow> bool) \<Rightarrow> jsstring \<Rightarrow> nat \<Rightarrow> nat \<Rightarrow> bool" where
  "run P s i j = (\<forall>k. i \<le> k \<and> k < j \<longrightarrow> P (s ! k))"

fun runs :: "(nat \<times> nat option \<times> (cu \<Rightarrow> bool)) list \<Rightarrow> jsstring \<Rightarrow> nat \<Rightarrow> nat \<Rightarrow> bool" where
  "runs [] s i j = (j = i)"
| "runs ((lo, hi, P) # rs) s i j =
     (\<exists>n. lo \<le> n \<and> (case hi of Some h \<Rightarrow> n \<le> h | None \<Rightarrow> True) \<and> i + n \<le> length s
        \<and> run P s i (i + n) \<and> runs rs s (i + n) j)"

definition boundary :: "jsstring \<Rightarrow> nat \<Rightarrow> bool" where
  "boundary s i = (word_before s i \<noteq> word_at s i)"

text \<open>
  The shapes of the structural fallback of the classifier: 2 to 4 upper-case ASCII
  letters and then 6 to 10 digits, between word boundaries; three groups of four digits,
  at most one white-space unit between groups, between word boundaries.
\<close>

definition voter_shape :: "jsstring \<Rightarrow> bool" where
  "voter_shape text =
     (\<exists>i j. boundary text i \<and> runs [(2, Some 4, is_upper), (6, Some 10, is_digit)] text i j
        \<and> boundary text j)"

definition aadhaar_shape :: "jsstring \<Rightarrow> bool" where
  "aadhaar_shape text =
     (\<exists>i j. boundary text i
        \<and> runs [(4, Some 4, is_digit), (0, Some 1, is_space), (4, Some 4, is_digit),
                 (0, Some 1, is_space), (4, Some 4, is_digit)] text i j
        \<and> boundary text j)"

text \<open>
  The tokens of the gender expression, in the order of its alternatives; a token occurs
  at an index when the text continues with it there and has a word boundary before and
  after it.
\<close>

definition gender_tokens :: "jsstring list" where
  "gender_tokens = [asc ''Male'', asc ''Female'', asc ''MALE'', asc ''FEMALE'',
     tam_aan @ tam_paal, tam_pen @ tam_paal, tam_aan, tam_pen]"

definition occurs_at :: "jsstring \<Rightarrow> nat \<Rightarrow> jsstring \<Rightarrow> bool" where
  "occurs_at s i tok =
     (take (length tok) (drop i s) = tok \<and> boundary s i \<and> boundary s (i + length tok))"

text \<open>Two forms of matcher terms that the proofs use.\<close>

definition cls_step :: "(cu \<Rightarrow> bool) \<Rightarrow> jsstring \<Rightarrow> mstate \<Rightarrow> mstate list" where
  "cls_step P s x = (if fst x < length s \<and> P (s ! fst x) then [(Suc (fst x), snd x)] else [])"

definition rep_cls :: "nat \<times> nat option \<times> (cu \<Rightarrow> bool) \<Rightarrow> rx" where
  "rep_cls t = (case t of (lo, hi, P) \<Rightarrow> Rep lo hi (Cls P))"

text \<open>
  What a run from \<open>st\<close> to \<open>st'\<close> with result \<open>res\<close> may change: it leaves the displayed
  result, the status message, the storage and the delivered records alone; it appends to
  the log recognitions with labels from \<open>L\<close>, none twice; and a recognition that threw is
  the last of the log and what it threw is the result of the run.
\<close>

definition run_ok :: "jsstring set \<Rightarrow> app \<Rightarrow> (thrown + ExtractedRecord) \<Rightarrow> app \<Rightarrow> bool" where
  "run_ok L st res st' =
     (ui_result st' = ui_result st \<and> ui_loading st' = ui_loading st
      \<and> ui_statusMsg st' = ui_statusMsg st \<and> store st' = store st
      \<and> delivered st' = delivered st
      \<and> (\<exists>new. ocr_log st' = ocr_log st @ new \<and> distinct (map fst new)
            \<and> fst ` set new \<subseteq> L
            \<and> (\<forall>l msg. (l, Inl msg) \<in> set new \<longrightarrow> res = Inl msg \<and> last new = (l, Inl msg))))"

definition all_labels :: "jsstring set" where
  "all_labels = {asc ''detect'', asc ''voter-orig'', asc ''voter-2x'', asc ''aadhaar-r1'',
     asc ''aadhaar-r2''}"


section \<open>Sample inputs\<close>

text \<open>
  An idle component with an empty storage, capabilities that crop without fault and
  recognise the texts of an Aadhaar card, and capabilities whose recognition rejects
  with the string \<^verbatim>\<open>"Network error"\<close> on the second pass over a voter card.
\<close>

definition idle_app :: app where
  "idle_app = \<lparr>ui_result = None, ui_loading = False, ui_stage = [], ui_progress = 0,
     ui_statusMsg = [], store = \<lparr>items = Map.empty, failing = False\<rparr>, delivered = [],
     ocr_log = []\<rparr>"

definition sample_r1 :: jsstring where
  "sample_r1 = asc ''Arun Kumar'' @ [0x0A] @ asc ''DOB: 05/07/1990 Male''"

definition sample_env :: "(unit, rect) env" where
  "sample_env = \<lparr>cropToBlob = (\<lambda>f r. Inr r), enhancedBlob = (\<lambda>f sc c. Inr (0, 0, 100, 100)),
     recognize = (\<lambda>b l. if l = asc ''detect'' then Inr (asc ''UIDAI'')
        else if l = asc ''aadhaar-r1'' then Inr sample_r1
        else if l = asc ''aadhaar-r2'' then Inr (asc ''1234 5678 9012'')
        else Inl (ErrorObject (asc ''no text''))),
     clock = 0, has_onExtract = True\<rparr>"

definition sample_record :: ExtractedRecord where
  "sample_record = \<lparr>docType = Str (asc ''Aadhaar Card''), name = Str (asc ''Arun Kumar''),
     dob = Str (asc ''05/07/1990''), gender = Str (asc ''Male''),
     aadhaar = Str (asc ''1234 5678 9012''), cardNo = Null, fatherName = Null\<rparr>"

definition failing_env :: "(unit, rect) env" where
  "failing_env = \<lparr>cropToBlob = (\<lambda>f r. Inr r), enhancedBlob = (\<lambda>f sc c. Inr (0, 0, 100, 100)),
     recognize = (\<lambda>b l. if l = asc ''detect'' then Inr (asc ''ELECTION C'')
        else if l = asc ''voter-orig'' then Inr (asc ''SOL3248432'')
        else Inl (PlainString (asc ''Network error''))),
     clock = 0, has_onExtract = True\<rparr>"

section \<open>Evaluation\<close>

text \<open>
  The equations with which the simplifier runs the model on a given text: the
  definitions, and the two recursions over a counter at a numeral.
\<close>

lemma rep_numeral:
  "rep f lo (numeral k) x =
     concat (map (rep f (lo - 1) (pred_numeral k))
       (filter (\<lambda>y. 0 < lo \<or> fst y \<noteq> fst x) (f x)))
     @ (if lo = 0 then [x] else [])"
  by (simp add: numeral_eq_Suc)

lemma search_numeral:
  "search r s i (numeral k) =
     (case m r s (i, Map.empty) of
        [] \<Rightarrow> search r s (Suc i) (pred_numeral k)
      | y # _ \<Rightarrow> Some \<lparr>mstart = i, mend = fst y, mcaps = snd y\<rparr>)"
  by (simp add: numeral_eq_Suc)

lemmas ev_strings =
  asc_def is_digit_def is_upper_def is_lower_def is_alpha_def is_word_def is_lineterm_def
  is_space_def lower_cu_def upper_cu_def toLowerCase_def toUpperCase_def trim_def
  startsWith_def substring_def padStart_def dec_value_def parseInt10_def

lemmas ev_regex =
  canon_def swap_case_def cls_i_def word_at_def word_before_def exec_def test_def grp_def
  replace_first_def match_all_def remove_all_def split_rx_def rep_numeral search_numeral

lemmas ev_helpers =
  not_found_def tam_aan_def tam_pen_def tam_paal_def tam_pirantha_def tam_naal_def
  BLACKLIST_def rx_leading_junk_def rx_trailing_digits_def rx_name_shape_def rx_spaces_def
  rx_dot_def isName_def smartTitle_def sanitizeDob_def is_datesep_def rx_date_shape_def
  rx_dob_label_def rx_dob_label_tamil_def rx_issue_def rx_date_token_def labelled_dob_def
  extractDobFromLines_def rx_gender_def extractGender_def rx_voter_pattern_def
  rx_aadhaar_pattern_def detectDocType_def

lemmas ev_extract =
  rx_newline_def rx_aadhaar_no_def extractAadhaarFields_def rx_card_no_def
  rx_father_line_def rx_voter_name_def rx_father_label_def rx_trailing_junk_def
  rx_soundara_def extractVoterFields_def

lemmas ev_run =
  LS_KEY_def saveLastResult_def loadLastResult_def ocrBlob_def runVoter_def runAadhaar_def
  runOcr_def counts_as_found_def found_count_def msg_success_def msg_partial_def
  msg_poor_def msg_error_def catch_status_def handleUpload_def idle_app_def sample_r1_def sample_env_def
  sample_record_def failing_env_def

lemmas ev = ev_strings ev_regex ev_helpers ev_extract ev_run

section \<open>Strings and splitting\<close>

lemma asc_simps: "asc ''/'' = [0x2F]" "asc ''-'' = [0x2D]" "asc ''0'' = [0x30]"
  by (simp_all add: asc_def)

lemma includesStr_single: "includesStr s [c] \<longleftrightarrow> c \<in> set s"
  by (induction s) (auto simp: startsWith_def)

lemma split_chr_no_sep: "p \<in> set (split_chr sep s) \<Longrightarrow> sep \<notin> set p"
  by (induction s arbitrary: p) (auto split: list.splits if_splits)

lemma split_chr_subset: "p \<in> set (split_chr sep s) \<Longrightarrow> set p \<subseteq> set s"
proof (induction s arbitrary: p)
  case Nil
  then show ?case by simp
next
  case (Cons c cs)
  show ?case
  proof (cases "split_chr sep cs")
    assume "split_chr sep cs = []"
    with Cons.prems show ?thesis by (auto split: if_splits)
  next
    fix q qs
    assume parts: "split_chr sep cs = q # qs"
    then have q: "set q \<subseteq> set cs" and qs: "\<And>p. p \<in> set qs \<Longrightarrow> set p \<subseteq> set cs"
      using Cons.IH by auto
    from Cons.prems parts q qs show ?thesis by (auto split: if_splits)
  qed
qed

lemma split_chr_plain: "sep \<notin> set s \<Longrightarrow> split_chr sep s = [s]"
  by (induction s) auto

lemma split_chr_append:
  "sep \<notin> set a \<Longrightarrow> split_chr sep (a @ sep # rest) = a # split_chr sep rest"
  by (induction a) (auto split: list.splits)

lemma padStart2:
  "padStart 2 (asc ''0'') x = (if 2 \<le> length x then x else replicate (2 - length x) 0x30 @ x)"
proof -
  have "take k (concat (replicate k [c])) = replicate k c" for k and c :: cu
    by (induction k) auto
  then show ?thesis by (simp add: padStart_def asc_def)
qed

lemma padStart2_idem:
  "padStart 2 (asc ''0'') (padStart 2 (asc ''0'') x) = padStart 2 (asc ''0'') x"
  by (simp add: padStart2)

lemma padStart2_set: "set (padStart 2 (asc ''0'') x) \<subseteq> insert 0x30 (set x)"
  by (auto simp: padStart2)

section \<open>The date sanitizer\<close>

lemma sanitizeDob_SomeD:
  assumes "sanitizeDob raw = Some r"
  obtains d mo y where
    "split_chr (if 0x2F \<in> set raw then 0x2F else if 0x2D \<in> set raw then 0x2D else 0x2E) raw
       = [d, mo, y]"
    "case parseInt10 y of None \<Rightarrow> True | Some v \<Rightarrow> 1900 \<le> v \<and> v \<le> 2020"
    "r = padStart 2 (asc ''0'') d @ [0x2F] @ padStart 2 (asc ''0'') mo @ [0x2F] @ y"
proof -
  let ?sep = "if 0x2F \<in> set raw then 0x2F else if 0x2D \<in> set raw then 0x2D else (0x2E :: cu)"
  let ?parts = "split_chr ?sep raw"
  from assms have len: "length ?parts = 3"
    by (auto simp: sanitizeDob_def Let_def includesStr_single asc_simps split: if_splits)
  then obtain d mo y where parts: "?parts = [d, mo, y]"
    by (auto simp: length_Suc_conv numeral_3_eq_3)
  from assms parts
  have "case parseInt10 y of None \<Rightarrow> True | Some v \<Rightarrow> 1900 \<le> v \<and> v \<le> 2020"
    by (auto simp: sanitizeDob_def Let_def includesStr_single asc_simps
        split: if_splits option.splits)
  moreover from assms parts
  have "r = padStart 2 (asc ''0'') d @ [0x2F] @ padStart 2 (asc ''0'') mo @ [0x2F] @ y"
    by (auto simp: sanitizeDob_def Let_def includesStr_single asc_simps
        split: if_splits option.splits)
  ultimately show ?thesis using parts that by blast
qed

lemma sanitizeDob_slash:
  assumes "includesStr x (asc ''/'')" and "split_chr 0x2F x = [a, b, c]"
    and "case parseInt10 c of None \<Rightarrow> True | Some v \<Rightarrow> 1900 \<le> v \<and> v \<le> 2020"
  shows "sanitizeDob x
    = Some (padStart 2 (asc ''0'') a @ [0x2F] @ padStart 2 (asc ''0'') b @ [0x2F] @ c)"
  using assms by (auto simp: sanitizeDob_def asc_simps split: option.splits)

lemma sanitizeDob_idem:
  assumes "sanitizeDob raw = Some r"
  shows "sanitizeDob r = Some r"
proof -
  let ?sep = "if 0x2F \<in> set raw then 0x2F else if 0x2D \<in> set raw then 0x2D else (0x2E :: cu)"
  from assms obtain d mo y where
    parts: "split_chr ?sep raw = [d, mo, y]"
    and yr: "case parseInt10 y of None \<Rightarrow> True | Some v \<Rightarrow> 1900 \<le> v \<and> v \<le> 2020"
    and r: "r = padStart 2 (asc ''0'') d @ [0x2F] @ padStart 2 (asc ''0'') mo @ [0x2F] @ y"
    by (rule sanitizeDob_SomeD)
  have noslash: "0x2F \<notin> set p" if "p \<in> set [d, mo, y]" for p
  proof (cases "0x2F \<in> set raw")
    case True
    with parts that split_chr_no_sep[of p "0x2F" raw] show ?thesis by auto
  next
    case False
    with parts that split_chr_subset[of p ?sep raw] show ?thesis by auto
  qed
  let ?pd = "padStart 2 (asc ''0'') d" and ?pm = "padStart 2 (asc ''0'') mo"
  have pd: "0x2F \<notin> set ?pd" and pm: "0x2F \<notin> set ?pm" and y: "0x2F \<notin> set y"
    using noslash padStart2_set[of d] padStart2_set[of mo] by auto
  have split: "split_chr 0x2F r = [?pd, ?pm, y]"
    using pd pm y by (simp add: r split_chr_append split_chr_plain)
  have inc: "includesStr r (asc ''/'')"
    by (simp add: asc_simps includesStr_single r)
  from sanitizeDob_slash[OF inc split yr] show ?thesis
    by (simp add: padStart2_idem r)
qed

lemma digit_facts:
  assumes "is_digit c"
  shows "c \<noteq> 0x2F" "c \<noteq> 0x2D" "c \<noteq> 0x2E" "c \<noteq> 0x2B" "\<not> is_space c" "\<not> is_datesep c"
  using assms by (auto simp: is_digit_def is_space_def is_lineterm_def is_datesep_def)

lemma digits_no_sep:
  assumes "list_all is_digit x" "is_datesep c"
  shows "c \<notin> set x"
  using assms digit_facts(6) by (auto simp: list_all_iff)

lemma parseInt10_digits:
  assumes "list_all is_digit y" "y \<noteq> []"
  shows "parseInt10 y = Some (dec_value y)"
proof -
  from assms obtain c cs where y: "y = c # cs" by (cases y) auto
  with assms(1) have c: "is_digit c" by simp
  from assms(1) have tw: "takeWhile is_digit y = y"
    by (simp add: list_all_iff takeWhile_eq_all_conv)
  from c have dw: "dropWhile is_space y = y" by (simp add: y digit_facts)
  from c have "hd y \<noteq> 0x2D" "hd y \<noteq> 0x2B" by (simp_all add: y digit_facts)
  then show ?thesis by (simp add: parseInt10_def Let_def tw dw assms(2))
qed

lemma sanitizeDob_token_result:
  assumes raw: "raw = d @ [s1] @ mo @ [s2] @ y"
    and d: "d \<noteq> []" "length d \<le> 2" "list_all is_digit d"
    and mo: "mo \<noteq> []" "length mo \<le> 2" "list_all is_digit mo"
    and y: "length y = 4" "list_all is_digit y"
    and seps: "is_datesep s1" "is_datesep s2"
  shows "sanitizeDob raw =
       (if s1 = s2 \<and> 1900 \<le> dec_value y \<and> dec_value y \<le> 2020
        then Some (replicate (2 - length d) 0x30 @ d @ asc ''/''
                @ replicate (2 - length mo) 0x30 @ mo @ asc ''/'' @ y)
        else None)
     \<and> (length (split_chr (if includesStr raw (asc ''/'') then 0x2F
                           else if includesStr raw (asc ''-'') then 0x2D else 0x2E) raw) = 3
          \<longleftrightarrow> s1 = s2)
     \<and> (s1 = s2 \<longrightarrow> split_chr s1 raw = [d, mo, y])
     \<and> parseInt10 y = Some (dec_value y)
     \<and> (\<forall>r. sanitizeDob raw = Some r \<longrightarrow> sanitizeDob r = Some r)"
proof -
  let ?sep = "if includesStr raw (asc ''/'') then 0x2F
              else if includesStr raw (asc ''-'') then 0x2D else (0x2E :: cu)"
  have nd: "c \<notin> set d" and nm: "c \<notin> set mo" and ny: "c \<notin> set y" if "is_datesep c" for c
    using that d(3) mo(3) y(2) by (simp_all add: digits_no_sep)
  have mem: "c \<in> set raw \<longleftrightarrow> c = s1 \<or> c = s2" if "is_datesep c" for c
    using nd[OF that] nm[OF that] ny[OF that] by (auto simp: raw)
  have sep_cases: "?sep = 0x2F \<or> ?sep = 0x2D \<or> ?sep = 0x2E" by simp
  have sep_is: "is_datesep ?sep" by (simp add: is_datesep_def)
  have sep_in: "?sep = s1 \<or> ?sep = s2"
  proof -
    have "is_datesep 0x2F" "is_datesep 0x2D" by (simp_all add: is_datesep_def)
    from mem[OF this(1)] mem[OF this(2)] seps show ?thesis
      by (auto simp: asc_simps includesStr_single is_datesep_def)
  qed
  from y have yne: "y \<noteq> []" by auto
  have year: "parseInt10 y = Some (dec_value y)"
    using y(2) yne by (rule parseInt10_digits)
  have pad: "padStart 2 (asc ''0'') x = replicate (2 - length x) 0x30 @ x" for x
    by (simp add: padStart2)
  have idem: "\<forall>r. sanitizeDob raw = Some r \<longrightarrow> sanitizeDob r = Some r"
    using sanitizeDob_idem by blast
  show ?thesis
  proof (cases "s1 = s2")
    case True
    with sep_in have sep: "?sep = s1" by auto
    have split: "split_chr s1 raw = [d, mo, y]"
      using nd[OF seps(1)] nm[OF seps(1)] ny[OF seps(1)] True
      by (simp add: raw split_chr_append split_chr_plain)
    have "sanitizeDob raw =
       (if 1900 \<le> dec_value y \<and> dec_value y \<le> 2020
        then Some (padStart 2 (asc ''0'') d @ asc ''/'' @ padStart 2 (asc ''0'') mo @ asc ''/'' @ y)
        else None)"
      by (simp add: sanitizeDob_def Let_def sep split year)
    with True split sep year idem show ?thesis by (simp add: pad)
  next
    case False
    define t where "t = ?sep"
    have t_is: "is_datesep t" and t_in: "t = s1 \<or> t = s2"
      using sep_is sep_in by (simp_all add: t_def)
    have "length (split_chr t raw) = 2"
    proof (cases "t = s1")
      case True
      with False have "t \<noteq> s2" by auto
      with nm[OF t_is] ny[OF t_is] have "t \<notin> set (mo @ s2 # y)" by auto
      with nd[OF t_is] have "split_chr t (d @ t # (mo @ s2 # y)) = [d, mo @ s2 # y]"
        by (simp add: split_chr_append split_chr_plain)
      with True show ?thesis by (simp add: raw)
    next
      case F: False
      with t_in have s2: "t = s2" by blast
      with False have "t \<noteq> s1" by auto
      with nd[OF t_is] nm[OF t_is] have "t \<notin> set (d @ s1 # mo)" by auto
      then have "split_chr t ((d @ s1 # mo) @ t # y) = (d @ s1 # mo) # split_chr t y"
        by (rule split_chr_append)
      also have "split_chr t y = [y]"
        using ny[OF t_is] by (rule split_chr_plain)
      finally have "length (split_chr t ((d @ s1 # mo) @ t # y)) = 2" by simp
      with s2 show ?thesis by (simp add: raw)
    qed
    then have two: "length (split_chr ?sep raw) = 2" by (simp only: t_def)
    from two have "sanitizeDob raw = None"
      unfolding sanitizeDob_def Let_def by simp
    with False two year idem show ?thesis by simp
  qed
qed

text \<open>
  C4. Every string that \<open>extractDobFromLines\<close> hands to \<open>sanitizeDob\<close> is a capture of
  \<^verbatim>\<open>\d{1,2}[\-\/\.]\d{1,2}[\-\/\.]\d{4}\<close>: one or two digits, a separator, one or two
  digits, a separator, four digits, the two separators each one of \<^verbatim>\<open>/\<close>, \<^verbatim>\<open>-\<close> and
  \<^verbatim>\<open>.\<close> (lemmas \<open>labelled_capture_is_date_token\<close> and \<open>scanned_match_is_date_token\<close>
  in the last section). On such a token the sanitizer accepts exactly when the token
  splits into three components on its separator, which is when both separators are the
  same, and the year lies in [1900, 2020]; a year outside the range is rejected whatever
  the separator. On acceptance the result is day and month padded with zeros to width
  two, and the year, joined by \<^verbatim>\<open>/\<close>, and the sanitizer returns that result again when
  applied to it. For a string of any form, an accepted input has exactly three
  components and gives the padded result, on which the sanitizer is idempotent, and an
  input with three components whose year is a number outside [1900, 2020] is rejected.
\<close>

theorem sanitizeDob_on_date_tokens:
  assumes raw: "raw = d @ [s1] @ mo @ [s2] @ y"
    and d: "d \<noteq> []" "length d \<le> 2" "list_all is_digit d"
    and mo: "mo \<noteq> []" "length mo \<le> 2" "list_all is_digit mo"
    and y: "length y = 4" "list_all is_digit y"
    and seps: "is_datesep s1" "is_datesep s2"
  shows "sanitizeDob raw =
       (if s1 = s2 \<and> 1900 \<le> dec_value y \<and> dec_value y \<le> 2020
        then Some (replicate (2 - length d) 0x30 @ d @ asc ''/''
                @ replicate (2 - length mo) 0x30 @ mo @ asc ''/'' @ y)
        else None)
     \<and> (length (split_chr (if includesStr raw (asc ''/'') then 0x2F
                           else if includesStr raw (asc ''-'') then 0x2D else 0x2E) raw) = 3
          \<longleftrightarrow> s1 = s2)
     \<and> (s1 = s2 \<longrightarrow> split_chr s1 raw = [d, mo, y])
     \<and> parseInt10 y = Some (dec_value y)
     \<and> (\<forall>r. sanitizeDob raw = Some r \<longrightarrow> sanitizeDob r = Some r)
     \<and> (sanitizeDob x = Some r \<longrightarrow>
          (\<exists>a b c. split_chr (if includesStr x (asc ''/'') then 0x2F
                              else if includesStr x (asc ''-'') then 0x2D else 0x2E) x = [a, b, c]
             \<and> r = replicate (2 - length a) 0x30 @ a @ asc ''/''
                   @ replicate (2 - length b) 0x30 @ b @ asc ''/'' @ c)
          \<and> sanitizeDob r = Some r)
     \<and> (split_chr (if includesStr x' (asc ''/'') then 0x2F
                    else if includesStr x' (asc ''-'') then 0x2D else 0x2E) x' = [a', b', c']
          \<and> parseInt10 c' = Some v \<and> (v < 1900 \<or> 2020 < v)
        \<longrightarrow> sanitizeDob x' = None)"
proof -
  have pad: "padStart 2 [0x30] z = replicate (2 - length z) 0x30 @ z" for z
    using padStart2[of z] by (simp add: asc_simps)
  have acc: "sanitizeDob x = Some r \<longrightarrow>
          (\<exists>a b c. split_chr (if includesStr x (asc ''/'') then 0x2F
                              else if includesStr x (asc ''-'') then 0x2D else 0x2E) x = [a, b, c]
             \<and> r = replicate (2 - length a) 0x30 @ a @ asc ''/''
                   @ replicate (2 - length b) 0x30 @ b @ asc ''/'' @ c)
          \<and> sanitizeDob r = Some r"
  proof
    assume acc: "sanitizeDob x = Some r"
    then obtain a b c where
      "split_chr (if 0x2F \<in> set x then 0x2F else if 0x2D \<in> set x then 0x2D else 0x2E) x
         = [a, b, c]"
      "r = padStart 2 (asc ''0'') a @ [0x2F] @ padStart 2 (asc ''0'') b @ [0x2F] @ c"
      by (rule sanitizeDob_SomeD)
    then have "split_chr (if includesStr x (asc ''/'') then 0x2F
          else if includesStr x (asc ''-'') then 0x2D else 0x2E) x = [a, b, c]
        \<and> r = replicate (2 - length a) 0x30 @ a @ asc ''/''
              @ replicate (2 - length b) 0x30 @ b @ asc ''/'' @ c"
      by (auto simp: pad asc_simps includesStr_single)
    with sanitizeDob_idem[OF acc]
    show "(\<exists>a b c. split_chr (if includesStr x (asc ''/'') then 0x2F
                              else if includesStr x (asc ''-'') then 0x2D else 0x2E) x = [a, b, c]
             \<and> r = replicate (2 - length a) 0x30 @ a @ asc ''/''
                   @ replicate (2 - length b) 0x30 @ b @ asc ''/'' @ c)
          \<and> sanitizeDob r = Some r"
      by blast
  qed
  have rej: "split_chr (if includesStr x' (asc ''/'') then 0x2F
                    else if includesStr x' (asc ''-'') then 0x2D else 0x2E) x' = [a', b', c']
          \<and> parseInt10 c' = Some v \<and> (v < 1900 \<or> 2020 < v)
        \<longrightarrow> sanitizeDob x' = None"
    by (auto simp: sanitizeDob_def Let_def)
  from sanitizeDob_token_result[OF assms] acc rej show ?thesis by (intro conjI) blast+
qed

theorem sanitizeDob_on_date_tokens_witness:
  "sanitizeDob (asc ''5-7-1990'') = Some (asc ''05/07/1990'')
   \<and> sanitizeDob (asc ''05/07/1990'') = Some (asc ''05/07/1990'')
   \<and> sanitizeDob (asc ''5.7.2021'') = None"
proof -
  have a: "sanitizeDob (asc ''5-7-1990'') =
       (if (0x2D :: cu) = 0x2D \<and> 1900 \<le> dec_value (asc ''1990'') \<and> dec_value (asc ''1990'') \<le> 2020
        then Some (replicate (2 - length (asc ''5'')) 0x30 @ asc ''5'' @ asc ''/''
                @ replicate (2 - length (asc ''7'')) 0x30 @ asc ''7'' @ asc ''/'' @ asc ''1990'')
        else None)"
    and a': "\<forall>r. sanitizeDob (asc ''5-7-1990'') = Some r \<longrightarrow> sanitizeDob r = Some r"
    using sanitizeDob_on_date_tokens[of "asc ''5-7-1990''" "asc ''5''" "0x2D" "asc ''7''" "0x2D"
        "asc ''1990''"]
    by (simp_all add: ev_strings is_datesep_def)
  have b: "sanitizeDob (asc ''5.7.2021'') =
       (if (0x2E :: cu) = 0x2E \<and> 1900 \<le> dec_value (asc ''2021'') \<and> dec_value (asc ''2021'') \<le> 2020
        then Some (replicate (2 - length (asc ''5'')) 0x30 @ asc ''5'' @ asc ''/''
                @ replicate (2 - length (asc ''7'')) 0x30 @ asc ''7'' @ asc ''/'' @ asc ''2021'')
        else None)"
    using sanitizeDob_on_date_tokens[of "asc ''5.7.2021''" "asc ''5''" "0x2E" "asc ''7''" "0x2E"
        "asc ''2021''"]
    by (simp add: ev_strings is_datesep_def)
  from a have 1: "sanitizeDob (asc ''5-7-1990'') = Some (asc ''05/07/1990'')"
    by (simp add: ev_strings)
  with a' have 2: "sanitizeDob (asc ''05/07/1990'') = Some (asc ''05/07/1990'')" by blast
  from b have 3: "sanitizeDob (asc ''5.7.2021'') = None" by (simp add: ev_strings)
  from 1 2 3 show ?thesis by simp
qed

section \<open>The cache\<close>

text \<open>
  C8. A result saved at time \<open>T\<close> into a storage that works and read at time \<open>now\<close>:
  more than 24 hours later the read returns \<^verbatim>\<open>null\<close> and leaves the storage without
  the entry; otherwise it returns the record as it was saved and leaves the storage as
  the save left it. 25 hours later the entry is gone.
\<close>

theorem cache_expires_after_24h:
  assumes "\<not> failing st"
  shows "loadLastResult now (saveLastResult r T st) =
      (if 24 * 60 * 60 * 1000 < now - T
       then (None, st\<lparr>items := (items st)(LS_KEY := None)\<rparr>)
       else (Some r, saveLastResult r T st))
    \<and> loadLastResult (T + 25 * 60 * 60 * 1000) (saveLastResult r T st) =
      (None, st\<lparr>items := (items st)(LS_KEY := None)\<rparr>)"
  using assms by (simp add: loadLastResult_def saveLastResult_def)

theorem cache_expires_after_24h_witness:
  "fst (loadLastResult (25 * 60 * 60 * 1000)
          (saveLastResult sample_record 0 \<lparr>items = Map.empty, failing = False\<rparr>)) = None
   \<and> items (snd (loadLastResult (25 * 60 * 60 * 1000)
          (saveLastResult sample_record 0 \<lparr>items = Map.empty, failing = False\<rparr>))) LS_KEY = None
   \<and> fst (loadLastResult (24 * 60 * 60 * 1000)
          (saveLastResult sample_record 0 \<lparr>items = Map.empty, failing = False\<rparr>))
       = Some sample_record"
  using cache_expires_after_24h[of "\<lparr>items = Map.empty, failing = False\<rparr>"
      "25 * 60 * 60 * 1000" sample_record 0]
    cache_expires_after_24h[of "\<lparr>items = Map.empty, failing = False\<rparr>"
      "24 * 60 * 60 * 1000" sample_record 0]
  by simp

section \<open>The run and its failure\<close>

lemma label_neq:
  "asc ''voter-orig'' \<noteq> asc ''voter-2x''" "asc ''aadhaar-r1'' \<noteq> asc ''aadhaar-r2''"
  "asc ''detect'' \<noteq> asc ''voter-orig''" "asc ''detect'' \<noteq> asc ''voter-2x''"
  "asc ''detect'' \<noteq> asc ''aadhaar-r1''" "asc ''detect'' \<noteq> asc ''aadhaar-r2''"
  by (simp_all add: asc_def)

lemma runVoter_ok:
  "runVoter e file st = (res, st') \<Longrightarrow> run_ok {asc ''voter-orig'', asc ''voter-2x''} st res st'"
  unfolding runVoter_def ocrBlob_def run_ok_def Let_def
  by (auto split: sum.splits simp: label_neq)

lemma runAadhaar_ok:
  "runAadhaar e file st = (res, st')
   \<Longrightarrow> run_ok {asc ''aadhaar-r1'', asc ''aadhaar-r2''} st res st'"
  unfolding runAadhaar_def ocrBlob_def run_ok_def Let_def
  by (auto split: sum.splits simp: label_neq)

lemma run_ok_after_detect:
  assumes sub: "run_ok L (st1\<lparr>ocr_log := ocr_log st1 @ [(asc ''detect'', Inr t)]\<rparr>) res st'"
    and L: "L \<subseteq> all_labels - {asc ''detect''}"
    and st1: "ui_result st1 = ui_result st" "ui_loading st1 = ui_loading st"
      "ui_statusMsg st1 = ui_statusMsg st" "store st1 = store st"
      "delivered st1 = delivered st" "ocr_log st1 = ocr_log st"
  shows "run_ok all_labels st res st'"
proof -
  from sub obtain new where
    new: "ocr_log st' = (ocr_log st1 @ [(asc ''detect'', Inr t)]) @ new"
      "distinct (map fst new)" "fst ` set new \<subseteq> L"
      "\<forall>l msg. (l, Inl msg) \<in> set new \<longrightarrow> res = Inl msg \<and> last new = (l, Inl msg)"
    unfolding run_ok_def by auto
  let ?new = "(asc ''detect'', Inr t) # new"
  have "ocr_log st' = ocr_log st @ ?new" using new(1) st1 by simp
  moreover have "distinct (map fst ?new)" using new(2,3) L by auto
  moreover have "fst ` set ?new \<subseteq> all_labels" using new(3) L by (auto simp: all_labels_def)
  moreover
  have "\<forall>l msg. (l, Inl msg) \<in> set ?new \<longrightarrow> res = Inl msg \<and> last ?new = (l, Inl msg)"
    using new(4) by auto
  ultimately show ?thesis using sub st1 unfolding run_ok_def by auto
qed

lemma runOcr_ok:
  assumes "runOcr e file st = (res, st')"
  shows "run_ok all_labels st res st'"
proof (cases "cropToBlob e file (0, 0, 100, 22)")
  case (Inl err)
  with assms show ?thesis by (auto simp: runOcr_def run_ok_def)
next
  case crop: (Inr blob)
  let ?st1 = "st\<lparr>ui_stage := asc ''Detecting document type...'', ui_progress := 5\<rparr>"
  show ?thesis
  proof (cases "recognize e blob (asc ''detect'')")
    case (Inl msg)
    with crop assms show ?thesis
      by (auto simp: runOcr_def run_ok_def ocrBlob_def all_labels_def)
  next
    case (Inr t)
    let ?st2 = "?st1\<lparr>ocr_log := ocr_log ?st1 @ [(asc ''detect'', Inr t)]\<rparr>"
    show ?thesis
    proof (cases "detectDocType t = asc ''voter''")
      case True
      with assms crop Inr have "runVoter e file ?st2 = (res, st')"
        by (simp add: runOcr_def ocrBlob_def)
      from runVoter_ok[OF this] show ?thesis
        by (rule run_ok_after_detect) (auto simp: all_labels_def label_neq)
    next
      case False
      with assms crop Inr have "runAadhaar e file ?st2 = (res, st')"
        by (simp add: runOcr_def ocrBlob_def)
      from runAadhaar_ok[OF this] show ?thesis
        by (rule run_ok_after_detect) (auto simp: all_labels_def label_neq)
    qed
  qed
qed

text \<open>
  What the handler does when a recognition throws. If the log of a run that started
  with an empty log holds a recognition that threw, then that recognition is the last of
  the log and no label occurs twice (the run stopped there and tried nothing again);
  the handler ends with no displayed result and not loading; the storage is as it was
  and nothing was handed to \<^verbatim>\<open>onExtract\<close>. The status is the cross mark and
  \<^verbatim>\<open>" OCR error: "\<close> followed by the message of a thrown \<^verbatim>\<open>Error\<close> object as it is, by
  the word \<^verbatim>\<open>undefined\<close> for a thrown value without a message, and is left empty when
  \<^verbatim>\<open>null\<close> or \<^verbatim>\<open>undefined\<close> was thrown.
\<close>

lemma recognition_failure_aborts:
  assumes thrown: "(label, Inl err) \<in> set (ocr_log (handleUpload e (Some file) st))"
    and fresh: "ocr_log st = []"
  shows "ui_result (handleUpload e (Some file) st) = None
    \<and> ui_statusMsg (handleUpload e (Some file) st) =
        (case err of
           ErrorObject message \<Rightarrow> [0x274C] @ asc '' OCR error: '' @ message
         | PlainString v \<Rightarrow> [0x274C] @ asc '' OCR error: undefined''
         | Nullish \<Rightarrow> [])
    \<and> \<not> ui_loading (handleUpload e (Some file) st)
    \<and> store (handleUpload e (Some file) st) = store st
    \<and> delivered (handleUpload e (Some file) st) = delivered st
    \<and> last (ocr_log (handleUpload e (Some file) st)) = (label, Inl err)
    \<and> distinct (map fst (ocr_log (handleUpload e (Some file) st)))"
proof -
  let ?st1 = "st\<lparr>ui_loading := True, ui_result := None, ui_statusMsg := [], ui_progress := 0\<rparr>"
  obtain res st2 where run: "runOcr e file ?st1 = (res, st2)" by (cases "runOcr e file ?st1")
  from runOcr_ok[OF run] fresh obtain new where
    keep: "ui_result st2 = None" "store st2 = store st" "delivered st2 = delivered st"
      "ui_statusMsg st2 = []"
    and log: "ocr_log st2 = new" "distinct (map fst new)"
    and err: "\<forall>l x. (l, Inl x) \<in> set new \<longrightarrow> res = Inl x \<and> last new = (l, Inl x)"
    unfolding run_ok_def by auto
  have log': "ocr_log (handleUpload e (Some file) st) = new"
    using run log(1) by (auto simp: handleUpload_def Let_def split: sum.splits option.splits)
  with thrown err have res: "res = Inl err" and lst: "last new = (label, Inl err)" by auto
  have status: "ui_statusMsg (handleUpload e (Some file) st) =
        (case err of
           ErrorObject message \<Rightarrow> [0x274C] @ asc '' OCR error: '' @ message
         | PlainString v \<Rightarrow> [0x274C] @ asc '' OCR error: undefined''
         | Nullish \<Rightarrow> [])"
    using run res keep(4)
    by (cases err) (simp_all add: handleUpload_def Let_def catch_status_def msg_error_def asc_def)
  from run res keep have
    "ui_result (handleUpload e (Some file) st) = None"
    "\<not> ui_loading (handleUpload e (Some file) st)"
    "store (handleUpload e (Some file) st) = store st"
    "delivered (handleUpload e (Some file) st) = delivered st"
    by (simp_all add: handleUpload_def Let_def split: option.splits)
  with status log' lst log(2) show ?thesis by simp
qed

text \<open>
  C9 fails on the code where the recognition rejects with a string, which has no
  \<^verbatim>\<open>message\<close> property: the run is aborted as the claim says, but the status shows the word
  \<^verbatim>\<open>undefined\<close> in place of the text that was thrown.
\<close>

theorem thrown_string_is_shown_as_undefined:
  "(asc ''voter-2x'', Inl (PlainString (asc ''Network error'')))
      \<in> set (ocr_log (handleUpload failing_env (Some ()) idle_app))
   \<and> ui_statusMsg (handleUpload failing_env (Some ()) idle_app)
       = [0x274C] @ asc '' OCR error: undefined''
   \<and> ui_result (handleUpload failing_env (Some ()) idle_app) = None
   \<and> store (handleUpload failing_env (Some ()) idle_app) = store idle_app
   \<and> last (ocr_log (handleUpload failing_env (Some ()) idle_app))
       = (asc ''voter-2x'', Inl (PlainString (asc ''Network error'')))"
proof -
  have thrown: "(asc ''voter-2x'', Inl (PlainString (asc ''Network error'')))
      \<in> set (ocr_log (handleUpload failing_env (Some ()) idle_app))"
    by (simp add: ev)
  have fresh: "ocr_log idle_app = []"
    by (simp add: idle_app_def)
  from recognition_failure_aborts[OF thrown fresh] thrown show ?thesis by simp
qed



section \<open>What the matcher returns\<close>

lemma in_if_single: "y \<in> set (if c then [a] else []) \<longleftrightarrow> c \<and> y = a"
  by (cases c) simp_all

lemma in_m_Cls: "y \<in> set (m (Cls P) s x) \<longleftrightarrow> (fst x < length s \<and> P (s ! fst x)) \<and> y = (Suc (fst x), snd x)"
  unfolding m.simps by (rule in_if_single)

lemma in_m_Cls_pair: "(j, d) \<in> set (m (Cls P) s (i, c)) \<longleftrightarrow> i < length s \<and> P (s ! i) \<and> j = Suc i \<and> d = c"
  by (auto simp: in_m_Cls simp del: m.simps)

lemma in_m_Seq: "y \<in> set (m (Seq a b) s x) \<longleftrightarrow> (\<exists>z \<in> set (m a s x). y \<in> set (m b s z))"
  by auto

lemma in_m_Grp: "y \<in> set (m (Grp k r) s x) \<longleftrightarrow> (\<exists>z \<in> set (m r s x). y = (fst z, (snd z)(k \<mapsto> (fst x, fst z))))"
  by auto

lemma m_Cls_step: "m (Cls P) s = cls_step P s"
  by (rule ext) (simp add: cls_step_def)

lemma in_rep_step:
  "i \<le> length s \<Longrightarrow> (j, d) \<in> set (rep (cls_step P s) lo n (i, c)) \<longleftrightarrow>
     d = c \<and> i + lo \<le> j \<and> j \<le> i + n \<and> j \<le> length s
     \<and> (\<forall>k. i \<le> k \<and> k < j \<longrightarrow> P (s ! k))"
proof (induction n arbitrary: lo i)
  case 0
  then show ?case by auto
next
  case (Suc n)
  show ?case
  proof (cases "i < length s \<and> P (s ! i)")
    case True
    then have step: "cls_step P s (i, c) = [(Suc i, c)]" by (simp add: cls_step_def)
    have IH: "(j, d) \<in> set (rep (cls_step P s) (lo - 1) n (Suc i, c)) \<longleftrightarrow>
       d = c \<and> Suc i + (lo - 1) \<le> j \<and> j \<le> Suc i + n \<and> j \<le> length s
       \<and> (\<forall>k. Suc i \<le> k \<and> k < j \<longrightarrow> P (s ! k))"
      using Suc.IH[of "Suc i" "lo - 1"] True by simp
    have run: "(\<forall>k. i \<le> k \<and> k < j \<longrightarrow> P (s ! k)) \<longleftrightarrow> (\<forall>k. Suc i \<le> k \<and> k < j \<longrightarrow> P (s ! k))"
    proof
      assume "\<forall>k. i \<le> k \<and> k < j \<longrightarrow> P (s ! k)"
      then show "\<forall>k. Suc i \<le> k \<and> k < j \<longrightarrow> P (s ! k)" by simp
    next
      assume a: "\<forall>k. Suc i \<le> k \<and> k < j \<longrightarrow> P (s ! k)"
      show "\<forall>k. i \<le> k \<and> k < j \<longrightarrow> P (s ! k)"
      proof (intro allI impI)
        fix k assume "i \<le> k \<and> k < j"
        then show "P (s ! k)" using a True by (cases "k = i") auto
      qed
    qed
    have "(j, d) \<in> set (rep (cls_step P s) lo (Suc n) (i, c)) \<longleftrightarrow>
        (j, d) \<in> set (rep (cls_step P s) (lo - 1) n (Suc i, c)) \<or> (lo = 0 \<and> j = i \<and> d = c)"
      by (simp add: step) (cases "lo = 0"; auto)
    also have "\<dots> \<longleftrightarrow> (d = c \<and> Suc i + (lo - 1) \<le> j \<and> j \<le> Suc i + n \<and> j \<le> length s
       \<and> (\<forall>k. i \<le> k \<and> k < j \<longrightarrow> P (s ! k))) \<or> (lo = 0 \<and> j = i \<and> d = c)"
      using IH run by (cases "i < j") auto
    also have "\<dots> \<longleftrightarrow> d = c \<and> i + lo \<le> j \<and> j \<le> i + Suc n \<and> j \<le> length s
     \<and> (\<forall>k. i \<le> k \<and> k < j \<longrightarrow> P (s ! k))"
      using Suc.prems by (cases "lo = 0"; cases "j = i") auto
    finally show ?thesis .
  next
    case False
    then have step: "cls_step P s (i, c) = []" by (auto simp: cls_step_def)
    have stuck: "j = i" if "i \<le> j" "\<forall>k. i \<le> k \<and> k < j \<longrightarrow> P (s ! k)" "j \<le> length s"
    proof (rule ccontr)
      assume "j \<noteq> i"
      with that(1) have "i < j" by simp
      with that(2,3) have "i < length s \<and> P (s ! i)" by auto
      with False show False by simp
    qed
    have "(j, d) \<in> set (rep (cls_step P s) lo (Suc n) (i, c)) \<longleftrightarrow> (lo = 0 \<and> j = i \<and> d = c)"
      by (simp add: step) (cases "lo = 0"; auto)
    also have "\<dots> \<longleftrightarrow> d = c \<and> i + lo \<le> j \<and> j \<le> i + Suc n \<and> j \<le> length s
     \<and> (\<forall>k. i \<le> k \<and> k < j \<longrightarrow> P (s ! k))"
    proof
      assume "lo = 0 \<and> j = i \<and> d = c"
      with Suc.prems show "d = c \<and> i + lo \<le> j \<and> j \<le> i + Suc n \<and> j \<le> length s
         \<and> (\<forall>k. i \<le> k \<and> k < j \<longrightarrow> P (s ! k))" by auto
    next
      assume r: "d = c \<and> i + lo \<le> j \<and> j \<le> i + Suc n \<and> j \<le> length s
         \<and> (\<forall>k. i \<le> k \<and> k < j \<longrightarrow> P (s ! k))"
      then have "i \<le> j" by simp
      with r have "j = i" by (intro stuck) simp_all
      with r show "lo = 0 \<and> j = i \<and> d = c" by simp
    qed
    finally show ?thesis .
  qed
qed

lemma in_m_Rep_Cls:
  assumes "i \<le> length s"
  shows "(j, d) \<in> set (m (Rep lo hi (Cls P)) s (i, c)) \<longleftrightarrow>
     d = c \<and> i + lo \<le> j \<and> (case hi of Some h \<Rightarrow> j \<le> i + h | None \<Rightarrow> True) \<and> j \<le> length s
     \<and> run P s i j"
proof (cases hi)
  case None
  have "(j, d) \<in> set (rep (cls_step P s) lo (lo + length s) (i, c)) \<longleftrightarrow>
     d = c \<and> i + lo \<le> j \<and> j \<le> length s \<and> run P s i j"
    unfolding in_rep_step[OF assms] run_def by auto
  with None show ?thesis by (simp add: m_Cls_step del: rep.simps)
next
  case (Some h)
  then show ?thesis
    using in_rep_step[OF assms, of j d P lo h c] by (simp add: m_Cls_step run_def del: rep.simps)
qed

lemma in_m_Wordb: "(j, d) \<in> set (m Wordb s (i, c)) \<longleftrightarrow> word_before s i \<noteq> word_at s i \<and> j = i \<and> d = c"
  by (cases "word_before s i \<noteq> word_at s i") auto



lemma in_m_Lit: "(j, d) \<in> set (m (Lit cs) s (i, c)) \<longleftrightarrow> take (length cs) (drop i s) = cs \<and> j = i + length cs \<and> d = c"
  by (cases "take (length cs) (drop i s) = cs") auto

lemma in_m_LitI: "(j, d) \<in> set (m (LitI cs) s (i, c)) \<longleftrightarrow>
    map canon (take (length cs) (drop i s)) = map canon cs \<and> j = i + length cs \<and> d = c"
  by (cases "map canon (take (length cs) (drop i s)) = map canon cs") auto

lemma in_m_Seq_pair: "(j, d) \<in> set (m (Seq a b) s x) \<longleftrightarrow> (\<exists>k e. (k, e) \<in> set (m a s x) \<and> (j, d) \<in> set (m b s (k, e)))"
  by auto

lemma in_m_Alt: "y \<in> set (m (Alt a b) s x) \<longleftrightarrow> y \<in> set (m a s x) \<or> y \<in> set (m b s x)"
  by simp

lemma in_m_Grp_pair: "(j, d) \<in> set (m (Grp k r) s (i, c)) \<longleftrightarrow> (\<exists>e. (j, e) \<in> set (m r s (i, c)) \<and> d = e(k \<mapsto> (i, j)))"
  by (force simp: image_iff)

lemma rep_bound:
  assumes "\<And>x y. fst x \<le> n \<Longrightarrow> y \<in> set (f x) \<Longrightarrow> fst y \<le> n"
  shows "fst x \<le> n \<Longrightarrow> y \<in> set (rep f lo k x) \<Longrightarrow> fst y \<le> n"
proof (induction k arbitrary: lo x)
  case 0
  then show ?case by (simp split: if_splits)
next
  case (Suc k)
  from Suc.prems(2) consider
    (iter) z where "z \<in> set (f x)" "y \<in> set (rep f (lo - 1) k z)"
    | (stop) "y = x"
    by (auto split: if_splits)
  then show ?case
  proof cases
    case iter
    from assms[OF Suc.prems(1) iter(1)] iter(2) show ?thesis by (rule Suc.IH)
  next
    case stop
    with Suc.prems(1) show ?thesis by simp
  qed
qed

lemma take_drop_eq_bound:
  assumes "take (length cs) (drop i s) = cs" "i \<le> length s"
  shows "i + length cs \<le> length s"
proof -
  from assms(1) have "length (take (length cs) (drop i s)) = length cs" by simp
  then have "length cs \<le> length s - i" by simp
  with assms(2) show ?thesis by simp
qed

lemma m_bound: "fst x \<le> length s \<Longrightarrow> y \<in> set (m r s x) \<Longrightarrow> fst y \<le> length s"
proof (induction r arbitrary: x y)
  case (Lit cs)
  obtain i c where x: "x = (i, c)" by (cases x)
  obtain j d where y: "y = (j, d)" by (cases y)
  from Lit.prems(2) have "take (length cs) (drop i s) = cs" "j = i + length cs"
    unfolding x y in_m_Lit by simp_all
  with take_drop_eq_bound[of cs i s] Lit.prems(1) show ?case by (simp add: x y)
next
  case (LitI cs)
  obtain i c where x: "x = (i, c)" by (cases x)
  obtain j d where y: "y = (j, d)" by (cases y)
  from LitI.prems(2) have eq: "map canon (take (length cs) (drop i s)) = map canon cs"
    and j: "j = i + length cs"
    unfolding x y in_m_LitI by simp_all
  from eq have "length (map canon (take (length cs) (drop i s))) = length (map canon cs)"
    by (rule arg_cong)
  then have "length cs \<le> length s - i" by simp
  with LitI.prems(1) j show ?case by (simp add: x y)
next
  case (Seq a b)
  from Seq.prems(2) obtain z where z: "z \<in> set (m a s x)" "y \<in> set (m b s z)" by auto
  from Seq.IH(1)[OF Seq.prems(1) z(1)] z(2) show ?case by (rule Seq.IH(2))
next
  case (Rep lo hi r)
  from Rep.prems(2) have "y \<in> set (rep (m r s) lo (case hi of Some h \<Rightarrow> h | None \<Rightarrow> lo + length s) x)"
    by simp
  with Rep.prems(1) show ?case
    by (rule rep_bound[rotated]) (rule Rep.IH)
next
  case (Alt a b)
  from Alt.prems(2) have "y \<in> set (m a s x) \<or> y \<in> set (m b s x)" by simp
  with Alt.IH Alt.prems(1) show ?case by blast
next
  case (Grp k r)
  from Grp.prems(2) obtain z where "z \<in> set (m r s x)" "fst y = fst z" by auto
  with Grp.IH[OF Grp.prems(1)] show ?case by simp
next
  case Eps
  then show ?case by simp
next
  case (Cls P)
  then show ?case unfolding in_m_Cls by auto
next
  case Bol
  then show ?case by (cases "fst x = 0") simp_all
next
  case Eol
  then show ?case by (cases "fst x = length s") simp_all
next
  case Wordb
  then show ?case by (cases "word_before s (fst x) \<noteq> word_at s (fst x)") simp_all
qed

lemma search_None: "search r s i n = None \<Longrightarrow> i \<le> j \<Longrightarrow> j < i + n \<Longrightarrow> m r s (j, Map.empty) = []"
proof (induction n arbitrary: i)
  case 0
  then show ?case by simp
next
  case (Suc n)
  from Suc.prems(1) have here: "m r s (i, Map.empty) = []" and rest: "search r s (Suc i) n = None"
    by (auto split: list.splits)
  show ?case
  proof (cases "j = i")
    case True
    with here show ?thesis by simp
  next
    case False
    with Suc.prems have "Suc i \<le> j" "j < Suc i + n" by simp_all
    with rest show ?thesis by (rule Suc.IH)
  qed
qed

lemma search_Some:
  "search r s i n = Some mt \<Longrightarrow>
     i \<le> mstart mt \<and> mstart mt < i + n
     \<and> (\<exists>ys. m r s (mstart mt, Map.empty) = (mend mt, mcaps mt) # ys)
     \<and> (\<forall>j. i \<le> j \<and> j < mstart mt \<longrightarrow> m r s (j, Map.empty) = [])"
proof (induction n arbitrary: i)
  case 0
  then show ?case by simp
next
  case (Suc n)
  show ?case
  proof (cases "m r s (i, Map.empty)")
    case Nil
    with Suc.prems have "search r s (Suc i) n = Some mt" by simp
    from Suc.IH[OF this] have a: "Suc i \<le> mstart mt" "mstart mt < Suc i + n"
      "\<exists>ys. m r s (mstart mt, Map.empty) = (mend mt, mcaps mt) # ys"
      and b: "\<And>j. Suc i \<le> j \<Longrightarrow> j < mstart mt \<Longrightarrow> m r s (j, Map.empty) = []"
      by simp_all
    have "m r s (j, Map.empty) = []" if "i \<le> j" "j < mstart mt" for j
    proof (cases "j = i")
      case True
      with Nil show ?thesis by simp
    next
      case False
      with that have "Suc i \<le> j" by simp
      with that(2) show ?thesis by (intro b)
    qed
    with a show ?thesis by simp
  next
    case (Cons y ys)
    with Suc.prems have "mt = \<lparr>mstart = i, mend = fst y, mcaps = snd y\<rparr>" by simp
    with Cons show ?thesis by auto
  qed
qed

lemma search_complete:
  "i \<le> j \<Longrightarrow> j < i + n \<Longrightarrow> m r s (j, Map.empty) \<noteq> [] \<Longrightarrow> search r s i n \<noteq> None"
  using search_None by blast

lemma exec_None:
  assumes "exec r s = None" "j \<le> length s"
  shows "m r s (j, Map.empty) = []"
proof -
  from assms(1) have "search r s 0 (Suc (length s)) = None" by (simp only: exec_def)
  from search_None[OF this, of j] assms(2) show ?thesis by simp
qed

lemma exec_Some:
  assumes "exec r s = Some mt"
  shows "mstart mt \<le> length s" "mstart mt \<le> mend mt" "mend mt \<le> length s"
    "(mend mt, mcaps mt) \<in> set (m r s (mstart mt, Map.empty))"
    "\<exists>ys. m r s (mstart mt, Map.empty) = (mend mt, mcaps mt) # ys"
    "\<And>j. j < mstart mt \<Longrightarrow> m r s (j, Map.empty) = []"
proof -
  from assms have s: "search r s 0 (Suc (length s)) = Some mt" by (simp add: exec_def)
  from search_Some[OF s] show 1: "mstart mt \<le> length s"
    and 5: "\<exists>ys. m r s (mstart mt, Map.empty) = (mend mt, mcaps mt) # ys"
    and "\<And>j. j < mstart mt \<Longrightarrow> m r s (j, Map.empty) = []"
    by auto
  from 5 show 4: "(mend mt, mcaps mt) \<in> set (m r s (mstart mt, Map.empty))" by auto
  from m_mono[OF 4] show "mstart mt \<le> mend mt" by simp
  from m_bound[OF _ 4] 1 show "mend mt \<le> length s" by simp
qed

lemma test_iff: "test r s \<longleftrightarrow> (\<exists>i \<le> length s. m r s (i, Map.empty) \<noteq> [])"
proof
  assume "test r s"
  then obtain mt where "exec r s = Some mt" by (auto simp: test_def)
  from exec_Some(1,5)[OF this] show "\<exists>i \<le> length s. m r s (i, Map.empty) \<noteq> []" by auto
next
  assume "\<exists>i \<le> length s. m r s (i, Map.empty) \<noteq> []"
  then obtain i where "i \<le> length s" "m r s (i, Map.empty) \<noteq> []" by auto
  then have "search r s 0 (Suc (length s)) \<noteq> None"
    by (intro search_complete[of 0 i]) simp_all
  then show "test r s" by (simp add: test_def exec_def)
qed

lemma includesStr_iff: "includesStr s n \<longleftrightarrow> (\<exists>p q. s = p @ n @ q)"
proof (induction s)
  case Nil
  then show ?case by auto
next
  case (Cons c cs)
  have pre: "startsWith (c # cs) n \<longleftrightarrow> (\<exists>q. c # cs = n @ q)"
    unfolding startsWith_def by (metis append_eq_conv_conj append_take_drop_id)
  have "(\<exists>p q. c # cs = p @ n @ q) \<longleftrightarrow> (\<exists>q. c # cs = n @ q) \<or> (\<exists>p q. cs = p @ n @ q)"
  proof
    assume "\<exists>p q. c # cs = p @ n @ q"
    then obtain p q where pq: "c # cs = p @ n @ q" by blast
    show "(\<exists>q. c # cs = n @ q) \<or> (\<exists>p q. cs = p @ n @ q)"
    proof (cases p)
      case Nil
      with pq show ?thesis by auto
    next
      case (Cons a p')
      with pq have "cs = p' @ n @ q" by simp
      then show ?thesis by blast
    qed
  next
    assume "(\<exists>q. c # cs = n @ q) \<or> (\<exists>p q. cs = p @ n @ q)"
    then show "\<exists>p q. c # cs = p @ n @ q"
    proof
      assume "\<exists>q. c # cs = n @ q"
      then obtain q where "c # cs = [] @ n @ q" by auto
      then show ?thesis by blast
    next
      assume "\<exists>p q. cs = p @ n @ q"
      then obtain p q where "c # cs = (c # p) @ n @ q" by auto
      then show ?thesis by blast
    qed
  qed
  with pre Cons.IH show ?case by simp
qed

lemma seqs_Cons: "rs \<noteq> [] \<Longrightarrow> seqs (r # rs) = Seq r (seqs rs)"
  by (cases rs) simp_all

lemma runs_mono: "runs rs s i j \<Longrightarrow> i \<le> j"
proof (induction rs arbitrary: i)
  case Nil
  then show ?case by simp
next
  case (Cons t rs)
  obtain lo hi P where t: "t = (lo, hi, P)" by (cases t)
  from Cons.prems obtain n where "runs rs s (i + n) j" unfolding t by auto
  from Cons.IH[OF this] show ?case by simp
qed

lemma runs_bound: "runs rs s i j \<Longrightarrow> i \<le> length s \<Longrightarrow> j \<le> length s"
proof (induction rs arbitrary: i)
  case Nil
  then show ?case by simp
next
  case (Cons t rs)
  obtain lo hi P where t: "t = (lo, hi, P)" by (cases t)
  from Cons.prems(1) obtain n where "runs rs s (i + n) j" "i + n \<le> length s" unfolding t by auto
  then show ?case by (rule Cons.IH)
qed

lemma in_m_Seq_Rep:
  assumes "i \<le> length s"
  shows "(j, d) \<in> set (m (Seq (Rep lo hi (Cls P)) r) s (i, c)) \<longleftrightarrow>
     (\<exists>n. lo \<le> n \<and> (case hi of Some h \<Rightarrow> n \<le> h | None \<Rightarrow> True) \<and> i + n \<le> length s
        \<and> run P s i (i + n) \<and> (j, d) \<in> set (m r s (i + n, c)))"
proof
  assume "(j, d) \<in> set (m (Seq (Rep lo hi (Cls P)) r) s (i, c))"
  then obtain k e where ke: "(k, e) \<in> set (m (Rep lo hi (Cls P)) s (i, c))"
    and rest: "(j, d) \<in> set (m r s (k, e))"
    unfolding in_m_Seq_pair by blast
  from ke have e: "e = c" and k: "i + lo \<le> k" "case hi of Some h \<Rightarrow> k \<le> i + h | None \<Rightarrow> True"
    "k \<le> length s" "run P s i k"
    unfolding in_m_Rep_Cls[OF assms] by simp_all
  from k(1) have ki: "k = i + (k - i)" by simp
  from k(2) ki have "case hi of Some h \<Rightarrow> k - i \<le> h | None \<Rightarrow> True"
    by (cases hi) auto
  with k e rest ki
  have "lo \<le> k - i \<and> (case hi of Some h \<Rightarrow> k - i \<le> h | None \<Rightarrow> True) \<and> i + (k - i) \<le> length s
        \<and> run P s i (i + (k - i)) \<and> (j, d) \<in> set (m r s (i + (k - i), c))"
    by auto
  then show "\<exists>n. lo \<le> n \<and> (case hi of Some h \<Rightarrow> n \<le> h | None \<Rightarrow> True) \<and> i + n \<le> length s
        \<and> run P s i (i + n) \<and> (j, d) \<in> set (m r s (i + n, c))" ..
next
  assume "\<exists>n. lo \<le> n \<and> (case hi of Some h \<Rightarrow> n \<le> h | None \<Rightarrow> True) \<and> i + n \<le> length s
        \<and> run P s i (i + n) \<and> (j, d) \<in> set (m r s (i + n, c))"
  then obtain n where n: "lo \<le> n" "case hi of Some h \<Rightarrow> n \<le> h | None \<Rightarrow> True"
    "i + n \<le> length s" "run P s i (i + n)"
    and rest: "(j, d) \<in> set (m r s (i + n, c))" by blast
  from n(2) have "case hi of Some h \<Rightarrow> i + n \<le> i + h | None \<Rightarrow> True" by (cases hi) auto
  with n have "(i + n, c) \<in> set (m (Rep lo hi (Cls P)) s (i, c))"
    unfolding in_m_Rep_Cls[OF assms] by simp
  with rest show "(j, d) \<in> set (m (Seq (Rep lo hi (Cls P)) r) s (i, c))"
    unfolding in_m_Seq_pair by blast
qed

lemma in_m_runs:
  assumes "i \<le> length s"
  shows "(j, d) \<in> set (m (seqs (map rep_cls rs @ [r])) s (i, c)) \<longleftrightarrow>
     (\<exists>k. runs rs s i k \<and> (j, d) \<in> set (m r s (k, c)))"
  using assms
proof (induction rs arbitrary: i)
  case Nil
  then show ?case by simp
next
  case (Cons t rs)
  obtain lo hi P where t: "t = (lo, hi, P)" by (cases t)
  have unfold: "seqs (map rep_cls (t # rs) @ [r]) = Seq (Rep lo hi (Cls P)) (seqs (map rep_cls rs @ [r]))"
    by (simp add: seqs_Cons rep_cls_def t)
  show ?case
  proof
    assume "(j, d) \<in> set (m (seqs (map rep_cls (t # rs) @ [r])) s (i, c))"
    then obtain n where n: "lo \<le> n" "case hi of Some h \<Rightarrow> n \<le> h | None \<Rightarrow> True"
      "i + n \<le> length s" "run P s i (i + n)"
      and rest: "(j, d) \<in> set (m (seqs (map rep_cls rs @ [r])) s (i + n, c))"
      unfolding unfold in_m_Seq_Rep[OF Cons.prems] by blast
    from rest obtain k where "runs rs s (i + n) k" "(j, d) \<in> set (m r s (k, c))"
      unfolding Cons.IH[OF n(3)] by blast
    with n show "\<exists>k. runs (t # rs) s i k \<and> (j, d) \<in> set (m r s (k, c))"
      unfolding t by auto
  next
    assume "\<exists>k. runs (t # rs) s i k \<and> (j, d) \<in> set (m r s (k, c))"
    then obtain k n where n: "lo \<le> n" "case hi of Some h \<Rightarrow> n \<le> h | None \<Rightarrow> True"
      "i + n \<le> length s" "run P s i (i + n)" and k: "runs rs s (i + n) k"
      "(j, d) \<in> set (m r s (k, c))"
      unfolding t by auto
    from k have "(j, d) \<in> set (m (seqs (map rep_cls rs @ [r])) s (i + n, c))"
      unfolding Cons.IH[OF n(3)] by blast
    with n show "(j, d) \<in> set (m (seqs (map rep_cls (t # rs) @ [r])) s (i, c))"
      unfolding unfold in_m_Seq_Rep[OF Cons.prems] by blast
  qed
qed

lemma nonempty_iff: "xs \<noteq> [] \<longleftrightarrow> (\<exists>j d. (j, d) \<in> set xs)"
  by (cases xs) auto

lemma test_bounded_runs:
  "test (Seq Wordb (seqs (map rep_cls rs @ [Wordb]))) text \<longleftrightarrow>
     (\<exists>i j. boundary text i \<and> runs rs text i j \<and> boundary text j)"
proof
  assume "test (Seq Wordb (seqs (map rep_cls rs @ [Wordb]))) text"
  then obtain i j d where i: "i \<le> length text"
    and "(j, d) \<in> set (m (Seq Wordb (seqs (map rep_cls rs @ [Wordb]))) text (i, Map.empty))"
    unfolding test_iff nonempty_iff by blast
  then have "boundary text i" and "\<exists>k. runs rs text i k \<and> (j, d) \<in> set (m Wordb text (k, Map.empty))"
    unfolding in_m_Seq_pair in_m_Wordb boundary_def using in_m_runs[OF i] by auto
  then show "\<exists>i j. boundary text i \<and> runs rs text i j \<and> boundary text j"
    unfolding in_m_Wordb boundary_def by blast
next
  assume "\<exists>i j. boundary text i \<and> runs rs text i j \<and> boundary text j"
  then obtain i j where b: "boundary text i" "runs rs text i j" "boundary text j" by blast
  have i: "i \<le> length text"
  proof (rule ccontr)
    assume "\<not> i \<le> length text"
    then have "\<not> word_at text i" "\<not> word_before text i"
      by (auto simp: word_at_def word_before_def)
    with b(1) show False by (simp add: boundary_def)
  qed
  from b(2,3) have "(j, Map.empty) \<in> set (m (seqs (map rep_cls rs @ [Wordb])) text (i, Map.empty))"
    unfolding in_m_runs[OF i] in_m_Wordb boundary_def by blast
  with b(1) have "(j, Map.empty) \<in> set (m (Seq Wordb (seqs (map rep_cls rs @ [Wordb]))) text (i, Map.empty))"
    unfolding in_m_Seq_pair in_m_Wordb boundary_def by blast
  with i show "test (Seq Wordb (seqs (map rep_cls rs @ [Wordb]))) text"
    unfolding test_iff nonempty_iff by blast
qed

section \<open>The gender extractor\<close>

lemma in_m_alts_Lit:
  "toks \<noteq> [] \<Longrightarrow> (j, d) \<in> set (m (alts (map Lit toks)) s (i, c)) \<longleftrightarrow>
     (\<exists>tok \<in> set toks. take (length tok) (drop i s) = tok \<and> j = i + length tok \<and> d = c)"
proof (induction toks rule: induct_list012)
  case 1
  then show ?case by simp
next
  case (2 t)
  show ?case unfolding list.map alts.simps in_m_Lit by simp
next
  case (3 t u us)
  have "(j, d) \<in> set (m (alts (map Lit (t # u # us))) s (i, c)) \<longleftrightarrow>
      (j, d) \<in> set (m (Lit t) s (i, c)) \<or> (j, d) \<in> set (m (alts (map Lit (u # us))) s (i, c))"
    by (simp del: m.simps add: in_m_Alt)
  also have "\<dots> \<longleftrightarrow> (take (length t) (drop i s) = t \<and> j = i + length t \<and> d = c)
      \<or> (\<exists>tok \<in> set (u # us). take (length tok) (drop i s) = tok \<and> j = i + length tok \<and> d = c)"
    unfolding in_m_Lit using 3 by simp
  finally show ?case by auto
qed

lemma rx_gender_alts: "rx_gender = Seq Wordb (Seq (Grp 1 (alts (map Lit gender_tokens))) Wordb)"
  by (simp add: rx_gender_def gender_tokens_def)

lemma in_m_gender:
  "(j, d) \<in> set (m rx_gender s (i, c)) \<longleftrightarrow>
     (\<exists>tok \<in> set gender_tokens. occurs_at s i tok \<and> j = i + length tok \<and> d = c(1 \<mapsto> (i, j)))"
proof -
  have ne: "gender_tokens \<noteq> []" by (simp add: gender_tokens_def)
  show ?thesis
    unfolding rx_gender_alts in_m_Seq_pair in_m_Grp_pair in_m_Wordb in_m_alts_Lit[OF ne]
      occurs_at_def boundary_def
    by blast
qed

lemma gender_token_class:
  assumes "tok \<in> set gender_tokens"
  shows "startsWith (toLowerCase tok) (asc ''m'') \<longleftrightarrow> tok = asc ''Male'' \<or> tok = asc ''MALE''"
    and "tok = asc ''Male'' \<or> tok = asc ''MALE'' \<longleftrightarrow> hd tok = 0x4D"
    and "tok \<noteq> []"
  using assms by (auto simp: gender_tokens_def ev_strings tam_aan_def tam_pen_def tam_paal_def)

lemma occurs_at_bound: "occurs_at s i tok \<Longrightarrow> tok \<noteq> [] \<Longrightarrow> i < length s"
  by (cases "i < length s") (auto simp: occurs_at_def)

lemma occurs_at_hd: "occurs_at s i tok \<Longrightarrow> tok \<noteq> [] \<Longrightarrow> hd tok = s ! i"
proof -
  assume o: "occurs_at s i tok" and ne: "tok \<noteq> []"
  from occurs_at_bound[OF o ne] have "drop i s = s ! i # drop (Suc i) s"
    by (simp add: Cons_nth_drop_Suc)
  with o ne show ?thesis
    by (cases tok) (auto simp: occurs_at_def)
qed

lemma exec_gender_None:
  assumes "exec rx_gender s = None" "tok \<in> set gender_tokens"
  shows "\<not> occurs_at s i tok"
proof
  assume o: "occurs_at s i tok"
  from gender_token_class(3)[OF assms(2)] have ne: "tok \<noteq> []" .
  from occurs_at_bound[OF o ne] have "i \<le> length s" by simp
  from exec_None[OF assms(1) this] have "m rx_gender s (i, Map.empty) = []" .
  moreover from o assms(2)
  have "(i + length tok, Map.empty(1 \<mapsto> (i, i + length tok))) \<in> set (m rx_gender s (i, Map.empty))"
    unfolding in_m_gender by blast
  ultimately show False by simp
qed

lemma exec_gender_Some:
  assumes "exec rx_gender s = Some mt"
  shows "grp s mt 1 \<in> set gender_tokens" "occurs_at s (mstart mt) (grp s mt 1)"
    "\<And>i' t'. i' < mstart mt \<Longrightarrow> t' \<in> set gender_tokens \<Longrightarrow> \<not> occurs_at s i' t'"
proof -
  from exec_Some(4)[OF assms] obtain tok where
    tok: "tok \<in> set gender_tokens" "occurs_at s (mstart mt) tok"
      "mend mt = mstart mt + length tok"
      "mcaps mt = Map.empty(1 \<mapsto> (mstart mt, mend mt))"
    unfolding in_m_gender by blast
  from tok(2,3,4) have g: "grp s mt 1 = tok"
    by (simp add: grp_def substring_def occurs_at_def)
  with tok show "grp s mt 1 \<in> set gender_tokens" "occurs_at s (mstart mt) (grp s mt 1)"
    by simp_all
  fix i' t'
  assume lt: "i' < mstart mt" and t': "t' \<in> set gender_tokens"
  show "\<not> occurs_at s i' t'"
  proof
    assume "occurs_at s i' t'"
    with t'
    have "(i' + length t', Map.empty(1 \<mapsto> (i', i' + length t'))) \<in> set (m rx_gender s (i', Map.empty))"
      unfolding in_m_gender by blast
    with exec_Some(6)[OF assms lt] show False by simp
  qed
qed

lemma extractGender_first:
  assumes tok: "tok \<in> set gender_tokens" and occ: "occurs_at text i tok"
    and first: "\<And>i' t'. i' < i \<Longrightarrow> t' \<in> set gender_tokens \<Longrightarrow> \<not> occurs_at text i' t'"
  shows "extractGender text
    = (if tok = asc ''Male'' \<or> tok = asc ''MALE'' then asc ''Male'' else asc ''Female'')"
proof (cases "exec rx_gender text")
  case None
  from exec_gender_None[OF None tok] occ show ?thesis by simp
next
  case (Some mt)
  let ?g = "grp text mt 1"
  note g = exec_gender_Some[OF Some]
  have "mstart mt = i"
  proof (rule ccontr)
    assume "mstart mt \<noteq> i"
    then consider "mstart mt < i" | "i < mstart mt" by linarith
    then show False
    proof cases
      case 1
      from first[OF 1 g(1)] g(2) show False by simp
    next
      case 2
      from g(3)[OF 2 tok] occ show False by simp
    qed
  qed
  with g(2) have "occurs_at text i ?g" by simp
  from occurs_at_hd[OF this gender_token_class(3)[OF g(1)]]
    occurs_at_hd[OF occ gender_token_class(3)[OF tok]]
  have "hd ?g = hd tok" by simp
  with gender_token_class(2)[OF g(1)] gender_token_class(2)[OF tok]
  have "?g = asc ''Male'' \<or> ?g = asc ''MALE'' \<longleftrightarrow> tok = asc ''Male'' \<or> tok = asc ''MALE''"
    by simp
  with gender_token_class(1)[OF g(1)] Some show ?thesis
    by (simp add: extractGender_def)
qed

lemma extractGender_none:
  assumes "\<And>i tok. tok \<in> set gender_tokens \<Longrightarrow> \<not> occurs_at text i tok"
  shows "extractGender text = not_found"
proof (cases "exec rx_gender text")
  case None
  then show ?thesis by (simp add: extractGender_def)
next
  case (Some mt)
  from exec_gender_Some(1,2)[OF Some] assms show ?thesis by blast
qed

text \<open>
  C6, as the code has it. The expression has no \<^verbatim>\<open>i\<close> flag: it matches the spellings
  \<^verbatim>\<open>Male\<close>, \<^verbatim>\<open>Female\<close>, \<^verbatim>\<open>MALE\<close>, \<^verbatim>\<open>FEMALE\<close> and the four Tamil tokens, each between word
  boundaries. Where a token occurs and none occurs at an earlier index, the result is
  \<^verbatim>\<open>"Male"\<close> for \<^verbatim>\<open>Male\<close> and \<^verbatim>\<open>MALE\<close> and \<^verbatim>\<open>"Female"\<close> for every other token; where no
  token occurs the result is the sentinel; there is no other result.
\<close>

theorem extractGender_listed_tokens:
  "(tok \<in> set gender_tokens \<and> occurs_at text i tok
      \<and> (\<forall>i' < i. \<forall>t' \<in> set gender_tokens. \<not> occurs_at text i' t')
     \<longrightarrow> extractGender text
         = (if tok = asc ''Male'' \<or> tok = asc ''MALE'' then asc ''Male'' else asc ''Female''))
   \<and> ((\<forall>i tok. tok \<in> set gender_tokens \<longrightarrow> \<not> occurs_at text i tok)
     \<longrightarrow> extractGender text = not_found)
   \<and> extractGender text \<in> {asc ''Male'', asc ''Female'', not_found}"
proof (intro conjI impI)
  assume "tok \<in> set gender_tokens \<and> occurs_at text i tok
      \<and> (\<forall>i' < i. \<forall>t' \<in> set gender_tokens. \<not> occurs_at text i' t')"
  then show "extractGender text
         = (if tok = asc ''Male'' \<or> tok = asc ''MALE'' then asc ''Male'' else asc ''Female'')"
    by (intro extractGender_first) blast+
next
  assume "\<forall>i tok. tok \<in> set gender_tokens \<longrightarrow> \<not> occurs_at text i tok"
  then show "extractGender text = not_found"
    by (intro extractGender_none) blast
next
  show "extractGender text \<in> {asc ''Male'', asc ''Female'', not_found}"
    by (simp add: extractGender_def split: option.splits)
qed

theorem extractGender_listed_tokens_witness:
  "extractGender (asc ''MALE'') = asc ''Male'' \<and> extractGender [] = not_found"
proof -
  have tok: "asc ''MALE'' \<in> set gender_tokens"
    by (simp add: gender_tokens_def)
  have occ: "occurs_at (asc ''MALE'') 0 (asc ''MALE'')"
    by (simp add: occurs_at_def boundary_def ev)
  have none: "\<forall>i tok. tok \<in> set gender_tokens \<longrightarrow> \<not> occurs_at [] i tok"
    by (auto simp: occurs_at_def gender_tokens_def ev)
  from extractGender_listed_tokens[of "asc ''MALE''" "asc ''MALE''" 0] tok occ
  have "extractGender (asc ''MALE'') = asc ''Male''" by simp
  moreover from extractGender_listed_tokens[of _ "[]"] none
  have "extractGender [] = not_found" by blast
  ultimately show ?thesis ..
qed

text \<open>C6 as stated fails: \<^verbatim>\<open>male\<close> and \<^verbatim>\<open>MaLe\<close> do not match.\<close>

theorem extractGender_is_case_sensitive:
  "extractGender (asc ''male'') = not_found \<and> extractGender (asc ''MaLe'') = not_found"
  by (simp add: ev)

text \<open>
  C10. When the first match of the gender expression is one of the Tamil tokens, the
  male ones included, the result is \<^verbatim>\<open>"Female"\<close>: the lower-cased token does not start
  with the Latin letter \<^verbatim>\<open>m\<close>.
\<close>

theorem tamil_token_yields_female:
  assumes "exec rx_gender text = Some mt"
    and "grp text mt 1 \<in> {tam_aan, tam_aan @ tam_paal, tam_pen, tam_pen @ tam_paal}"
  shows "extractGender text = asc ''Female''"
proof -
  have "\<not> startsWith (toLowerCase tok) (asc ''m'')"
    if "tok \<in> {tam_aan, tam_aan @ tam_paal, tam_pen, tam_pen @ tam_paal}" for tok
    using that by (auto simp: ev_strings tam_aan_def tam_pen_def tam_paal_def)
  with assms show ?thesis by (simp add: extractGender_def)
qed

theorem tamil_token_yields_female_witness:
  "grp (asc ''x'' @ tam_aan @ asc ''y'') (the (exec rx_gender (asc ''x'' @ tam_aan @ asc ''y''))) 1
     = tam_aan
   \<and> extractGender (asc ''x'' @ tam_aan @ asc ''y'') = asc ''Female''"
proof -
  let ?t = "asc ''x'' @ tam_aan @ asc ''y''"
  have "exec rx_gender ?t \<noteq> None" by (simp add: ev)
  then have ex: "exec rx_gender ?t = Some (the (exec rx_gender ?t))" by simp
  have g: "grp ?t (the (exec rx_gender ?t)) 1 = tam_aan" by (simp add: ev)
  then have "grp ?t (the (exec rx_gender ?t)) 1 \<in> {tam_aan, tam_aan @ tam_paal, tam_pen, tam_pen @ tam_paal}"
    by simp
  from tamil_token_yields_female[OF ex this] g show ?thesis by simp
qed

section \<open>The classifier\<close>

lemma test_voter_pattern: "test rx_voter_pattern text \<longleftrightarrow> voter_shape text"
proof -
  have eq: "rx_voter_pattern
    = Seq Wordb (seqs (map rep_cls [(2, Some 4, is_upper), (6, Some 10, is_digit)] @ [Wordb]))"
    by (simp add: rx_voter_pattern_def rep_cls_def)
  show ?thesis unfolding eq voter_shape_def by (rule test_bounded_runs)
qed

lemma test_aadhaar_pattern: "test rx_aadhaar_pattern text \<longleftrightarrow> aadhaar_shape text"
proof -
  have eq: "rx_aadhaar_pattern
    = Seq Wordb (seqs (map rep_cls [(4, Some 4, is_digit), (0, Some 1, is_space),
        (4, Some 4, is_digit), (0, Some 1, is_space), (4, Some 4, is_digit)] @ [Wordb]))"
    by (simp add: rx_aadhaar_pattern_def rep_cls_def)
  show ?thesis unfolding eq aadhaar_shape_def by (rule test_bounded_runs)
qed

text \<open>
  C2, as the code has it. The classifier is a function of its text with three possible
  results, decided in this order: a voter keyword in the lower-cased text; an Aadhaar
  keyword in the lower-cased text; in the text as it is, 2 to 4 upper-case ASCII letters
  followed by 6 to 10 digits between word boundaries; in the text as it is, three groups
  of four digits, at most one white-space unit between groups, between word boundaries;
  otherwise unknown.
\<close>

theorem detectDocType_cascade:
  "detectDocType text =
     (if (\<exists>kw \<in> {asc ''election'', asc ''elector'', asc ''voter''}.
            \<exists>p q. toLowerCase text = p @ kw @ q) then asc ''voter''
      else if (\<exists>kw \<in> {asc ''aadhaar'', asc ''aadhar'', asc ''uidai'', asc ''government of india''}.
            \<exists>p q. toLowerCase text = p @ kw @ q) then asc ''aadhaar''
      else if voter_shape text then asc ''voter''
      else if aadhaar_shape text then asc ''aadhaar''
      else asc ''unknown'')
   \<and> detectDocType text \<in> {asc ''voter'', asc ''aadhaar'', asc ''unknown''}
   \<and> asc ''voter'' \<noteq> asc ''aadhaar'' \<and> asc ''voter'' \<noteq> asc ''unknown''
   \<and> asc ''aadhaar'' \<noteq> asc ''unknown''"
proof -
  have "detectDocType text \<in> {asc ''voter'', asc ''aadhaar'', asc ''unknown''}"
    by (simp add: detectDocType_def Let_def)
  moreover have "asc ''voter'' \<noteq> asc ''aadhaar''" "asc ''voter'' \<noteq> asc ''unknown''"
    "asc ''aadhaar'' \<noteq> asc ''unknown''"
    by (simp_all add: asc_def)
  ultimately show ?thesis
    by (simp add: detectDocType_def Let_def includesStr_iff test_voter_pattern
        test_aadhaar_pattern)
qed

theorem detectDocType_cascade_witness:
  "detectDocType (asc ''ELECTION C'') = asc ''voter''"
proof -
  have "toLowerCase (asc ''ELECTION C'') = [] @ asc ''election'' @ asc '' c''"
    by (simp add: ev)
  then have "\<exists>kw \<in> {asc ''election'', asc ''elector'', asc ''voter''}.
      \<exists>p q. toLowerCase (asc ''ELECTION C'') = p @ kw @ q"
    by blast
  with detectDocType_cascade[of "asc ''ELECTION C''"] show ?thesis by presburger
qed

text \<open>
  C2 as stated fails: two lower-case letters followed by six digits are a pattern of 2
  to 4 letters followed by 6 to 10 digits, and the classifier answers unknown.
\<close>

theorem detectDocType_lower_case_letters:
  "detectDocType (asc ''ab123456'') = asc ''unknown''
   \<and> detectDocType (asc ''AB123456'') = asc ''voter''"
  by (simp add: ev)

section \<open>The dispatch of the texts\<close>

lemma extractVoterFields_fields:
  "cardNo (extractVoterFields textOrig text2x)
     = Str (case exec rx_card_no (textOrig @ [0x0A] @ text2x) of
              None \<Rightarrow> not_found
            | Some cardM \<Rightarrow> grp (textOrig @ [0x0A] @ text2x) cardM 1)"
  "name (extractVoterFields textOrig text2x)
     = Str (voter_name (filter (\<lambda>l. l \<noteq> [])
              (map trim (split_rx rx_newline (textOrig @ [0x0A] @ text2x)))))"
  "fatherName (extractVoterFields textOrig text2x)
     = Str (case exec rx_father_label (textOrig @ [0x0A] @ text2x) of
              Some fM \<Rightarrow>
                replace_first rx_trailing_junk (trim (grp (textOrig @ [0x0A] @ text2x) fM 1)) []
            | None \<Rightarrow>
                (case exec rx_soundara (textOrig @ [0x0A] @ text2x) of
                   None \<Rightarrow> not_found
                 | Some sM \<Rightarrow> grp (textOrig @ [0x0A] @ text2x) sM 1))"
  "dob (extractVoterFields textOrig text2x)
     = Str (extractDobFromLines textOrig
              (filter (\<lambda>l. l \<noteq> []) (map trim (split_chr 0x0A textOrig))))"
  "gender (extractVoterFields textOrig text2x)
     = Str (if extractGender text2x \<noteq> not_found then extractGender text2x
            else extractGender textOrig)"
  "docType (extractVoterFields textOrig text2x) = Str (asc ''Voter ID'')"
  "aadhaar (extractVoterFields textOrig text2x) = Null"
  unfolding extractVoterFields_def Let_def by simp_all

lemma extractAadhaarFields_fields:
  "name (extractAadhaarFields r1Text r2Text)
     = Str (case List.find isName
                   (filter (\<lambda>l. l \<noteq> []) (map trim (split_rx rx_newline r1Text))) of
              None \<Rightarrow> not_found
            | Some line \<Rightarrow> smartTitle line)"
  "dob (extractAadhaarFields r1Text r2Text)
     = Str (extractDobFromLines r1Text
              (filter (\<lambda>l. l \<noteq> []) (map trim (split_rx rx_newline r1Text))))"
  "gender (extractAadhaarFields r1Text r2Text) = Str (extractGender r1Text)"
  "aadhaar (extractAadhaarFields r1Text r2Text)
     = Str (case exec rx_aadhaar_no r2Text of
              None \<Rightarrow> not_found
            | Some am \<Rightarrow> grp r2Text am 1 @ asc '' '' @ grp r2Text am 2
                         @ asc '' '' @ grp r2Text am 3)"
  "docType (extractAadhaarFields r1Text r2Text) = Str (asc ''Aadhaar Card'')"
  "cardNo (extractAadhaarFields r1Text r2Text) = Null"
  "fatherName (extractAadhaarFields r1Text r2Text) = Null"
  unfolding extractAadhaarFields_def Let_def by simp_all

lemma extractGender_not_found_iff:
  "extractGender text = not_found \<longleftrightarrow> exec rx_gender text = None"
  by (simp add: extractGender_def not_found_def asc_def split: option.splits)


text \<open>
  C5, as the code has it. For a voter card the card number, the name and the father's
  name are read from the plain pass, a line feed and the enhanced pass put together, and
  from nothing else of the two texts: two pairs of passes with the same concatenation
  give the same three fields. The date of birth is read from the plain pass alone,
  whatever the enhanced pass holds. The gender is that of the enhanced pass, and that of
  the plain pass only when the gender expression matches nowhere in the enhanced pass.
  For an Aadhaar card the name, the date of birth and the gender are read from the text
  of the first region alone and the number from the text of the second region alone.
\<close>

theorem dispatch_of_texts:
  "cardNo (extractVoterFields textOrig text2x)
     = Str (case exec rx_card_no (textOrig @ [0x0A] @ text2x) of
              None \<Rightarrow> not_found
            | Some cardM \<Rightarrow> grp (textOrig @ [0x0A] @ text2x) cardM 1)
   \<and> name (extractVoterFields textOrig text2x)
     = Str (voter_name (filter (\<lambda>l. l \<noteq> [])
              (map trim (split_rx rx_newline (textOrig @ [0x0A] @ text2x)))))
   \<and> fatherName (extractVoterFields textOrig text2x)
     = Str (case exec rx_father_label (textOrig @ [0x0A] @ text2x) of
              Some fM \<Rightarrow>
                replace_first rx_trailing_junk (trim (grp (textOrig @ [0x0A] @ text2x) fM 1)) []
            | None \<Rightarrow>
                (case exec rx_soundara (textOrig @ [0x0A] @ text2x) of
                   None \<Rightarrow> not_found
                 | Some sM \<Rightarrow> grp (textOrig @ [0x0A] @ text2x) sM 1))
   \<and> (textOrig @ [0x0A] @ text2x = textOrig' @ [0x0A] @ text2x' \<longrightarrow>
         cardNo (extractVoterFields textOrig text2x) = cardNo (extractVoterFields textOrig' text2x')
       \<and> name (extractVoterFields textOrig text2x) = name (extractVoterFields textOrig' text2x')
       \<and> fatherName (extractVoterFields textOrig text2x)
           = fatherName (extractVoterFields textOrig' text2x'))
   \<and> dob (extractVoterFields textOrig text2x)
     = Str (extractDobFromLines textOrig
              (filter (\<lambda>l. l \<noteq> []) (map trim (split_chr 0x0A textOrig))))
   \<and> dob (extractVoterFields textOrig text2x) = dob (extractVoterFields textOrig text2x')
   \<and> gender (extractVoterFields textOrig text2x)
     = Str (if exec rx_gender text2x = None then extractGender textOrig
            else extractGender text2x)
   \<and> name (extractAadhaarFields r1Text r2Text)
     = Str (case List.find isName
                   (filter (\<lambda>l. l \<noteq> []) (map trim (split_rx rx_newline r1Text))) of
              None \<Rightarrow> not_found
            | Some line \<Rightarrow> smartTitle line)
   \<and> dob (extractAadhaarFields r1Text r2Text)
     = Str (extractDobFromLines r1Text
              (filter (\<lambda>l. l \<noteq> []) (map trim (split_rx rx_newline r1Text))))
   \<and> gender (extractAadhaarFields r1Text r2Text) = Str (extractGender r1Text)
   \<and> aadhaar (extractAadhaarFields r1Text r2Text)
     = Str (case exec rx_aadhaar_no r2Text of
              None \<Rightarrow> not_found
            | Some am \<Rightarrow> grp r2Text am 1 @ asc '' '' @ grp r2Text am 2
                         @ asc '' '' @ grp r2Text am 3)
   \<and> name (extractAadhaarFields r1Text r2Text) = name (extractAadhaarFields r1Text r2Text')
   \<and> dob (extractAadhaarFields r1Text r2Text) = dob (extractAadhaarFields r1Text r2Text')
   \<and> gender (extractAadhaarFields r1Text r2Text) = gender (extractAadhaarFields r1Text r2Text')
   \<and> aadhaar (extractAadhaarFields r1Text r2Text) = aadhaar (extractAadhaarFields r1Text' r2Text)"
proof -
  have same: "textOrig @ [0x0A] @ text2x = textOrig' @ [0x0A] @ text2x' \<longrightarrow>
         cardNo (extractVoterFields textOrig text2x) = cardNo (extractVoterFields textOrig' text2x')
       \<and> name (extractVoterFields textOrig text2x) = name (extractVoterFields textOrig' text2x')
       \<and> fatherName (extractVoterFields textOrig text2x)
           = fatherName (extractVoterFields textOrig' text2x')"
  proof
    assume eq: "textOrig @ [0x0A] @ text2x = textOrig' @ [0x0A] @ text2x'"
    show "cardNo (extractVoterFields textOrig text2x) = cardNo (extractVoterFields textOrig' text2x')
       \<and> name (extractVoterFields textOrig text2x) = name (extractVoterFields textOrig' text2x')
       \<and> fatherName (extractVoterFields textOrig text2x)
           = fatherName (extractVoterFields textOrig' text2x')"
      unfolding extractVoterFields_fields eq by (intro conjI refl)
  qed
  have g: "gender (extractVoterFields textOrig text2x)
     = Str (if exec rx_gender text2x = None then extractGender textOrig
            else extractGender text2x)"
    unfolding extractVoterFields_fields extractGender_not_found_iff by simp
  have d: "dob (extractVoterFields textOrig text2x) = dob (extractVoterFields textOrig text2x')"
    unfolding extractVoterFields_fields by (rule refl)
  have a: "name (extractAadhaarFields r1Text r2Text) = name (extractAadhaarFields r1Text r2Text')"
    "dob (extractAadhaarFields r1Text r2Text) = dob (extractAadhaarFields r1Text r2Text')"
    "gender (extractAadhaarFields r1Text r2Text) = gender (extractAadhaarFields r1Text r2Text')"
    "aadhaar (extractAadhaarFields r1Text r2Text) = aadhaar (extractAadhaarFields r1Text' r2Text)"
    unfolding extractAadhaarFields_fields by (rule refl)+
  show ?thesis
    by (intro conjI extractVoterFields_fields extractAadhaarFields_fields same g d a)
qed

theorem dispatch_of_texts_witness:
  "cardNo (extractVoterFields (asc ''x'') (asc ''AB123456'')) = Str (asc ''AB123456'')
   \<and> cardNo (extractVoterFields (asc ''AB123456'') (asc ''x'')) = Str (asc ''AB123456'')
   \<and> cardNo (extractVoterFields (asc ''AB123456'' @ [0x0A] @ asc ''x'') (asc ''y''))
       = cardNo (extractVoterFields (asc ''AB123456'') (asc ''x'' @ [0x0A] @ asc ''y''))
   \<and> gender (extractVoterFields (asc ''Male'') (asc ''Female'')) = Str (asc ''Female'')
   \<and> gender (extractVoterFields (asc ''Male'') (asc ''x'')) = Str (asc ''Male'')"
proof -
  note t1 = dispatch_of_texts[where textOrig = "asc ''x''" and ?text2x.0 = "asc ''AB123456''"]
  note t2 = dispatch_of_texts[where textOrig = "asc ''AB123456''" and ?text2x.0 = "asc ''x''"]
  note t3 = dispatch_of_texts[where textOrig = "asc ''AB123456'' @ [0x0A] @ asc ''x''"
      and ?text2x.0 = "asc ''y''" and textOrig' = "asc ''AB123456''"
      and text2x' = "asc ''x'' @ [0x0A] @ asc ''y''"]
  note t4 = dispatch_of_texts[where textOrig = "asc ''Male''" and ?text2x.0 = "asc ''Female''"]
  note t5 = dispatch_of_texts[where textOrig = "asc ''Male''" and ?text2x.0 = "asc ''x''"]
  have e1: "(case exec rx_card_no (asc ''x'' @ [0x0A] @ asc ''AB123456'') of
              None \<Rightarrow> not_found
            | Some cardM \<Rightarrow> grp (asc ''x'' @ [0x0A] @ asc ''AB123456'') cardM 1) = asc ''AB123456''"
    by (simp add: ev)
  have e2: "(case exec rx_card_no (asc ''AB123456'' @ [0x0A] @ asc ''x'') of
              None \<Rightarrow> not_found
            | Some cardM \<Rightarrow> grp (asc ''AB123456'' @ [0x0A] @ asc ''x'') cardM 1) = asc ''AB123456''"
    by (simp add: ev)
  have e3: "(asc ''AB123456'' @ [0x0A] @ asc ''x'') @ [0x0A] @ asc ''y''
      = asc ''AB123456'' @ [0x0A] @ asc ''x'' @ [0x0A] @ asc ''y''"
    by simp
  have e4: "(if exec rx_gender (asc ''Female'') = None then extractGender (asc ''Male'')
            else extractGender (asc ''Female'')) = asc ''Female''"
    by (simp add: ev)
  have e5: "(if exec rx_gender (asc ''x'') = None then extractGender (asc ''Male'')
            else extractGender (asc ''x'')) = asc ''Male''"
    by (simp add: ev)
  from t1 e1 have 1: "cardNo (extractVoterFields (asc ''x'') (asc ''AB123456'')) = Str (asc ''AB123456'')"
    by (simp only:)
  from t2 e2 have 2: "cardNo (extractVoterFields (asc ''AB123456'') (asc ''x'')) = Str (asc ''AB123456'')"
    by (simp only:)
  from t3 e3 have 3: "cardNo (extractVoterFields (asc ''AB123456'' @ [0x0A] @ asc ''x'') (asc ''y''))
       = cardNo (extractVoterFields (asc ''AB123456'') (asc ''x'' @ [0x0A] @ asc ''y''))"
    by blast
  from t4 e4 have 4: "gender (extractVoterFields (asc ''Male'') (asc ''Female'')) = Str (asc ''Female'')"
    by (simp only:)
  from t5 e5 have 5: "gender (extractVoterFields (asc ''Male'') (asc ''x'')) = Str (asc ''Male'')"
    by (simp only:)
  from 1 2 3 4 5 show ?thesis by (intro conjI)
qed

text \<open>
  C5 as stated fails for the date of birth of a voter card: a date that only the
  enhanced pass holds is not found, although the rule finds it in the concatenation.
\<close>

theorem voter_dob_reads_plain_pass_only:
  "dob (extractVoterFields (asc ''Voter'') (asc ''DOB: 05/07/1990'')) = Str (asc ''Not found'')
   \<and> extractDobFromLines (asc ''Voter'' @ [0x0A] @ asc ''DOB: 05/07/1990'')
         (filter (\<lambda>l. l \<noteq> [])
            (map trim (split_rx rx_newline (asc ''Voter'' @ [0x0A] @ asc ''DOB: 05/07/1990''))))
       = asc ''05/07/1990''"
proof -
  have "extractDobFromLines (asc ''Voter'')
          (filter (\<lambda>l. l \<noteq> []) (map trim (split_chr 0x0A (asc ''Voter'')))) = asc ''Not found''"
    by (simp add: ev)
  then have 1: "dob (extractVoterFields (asc ''Voter'') (asc ''DOB: 05/07/1990''))
      = Str (asc ''Not found'')"
    unfolding extractVoterFields_fields by (rule arg_cong)
  have 2: "extractDobFromLines (asc ''Voter'' @ [0x0A] @ asc ''DOB: 05/07/1990'')
         (filter (\<lambda>l. l \<noteq> [])
            (map trim (split_rx rx_newline (asc ''Voter'' @ [0x0A] @ asc ''DOB: 05/07/1990''))))
       = asc ''05/07/1990''"
    by (simp add: ev)
  from 1 2 show ?thesis by (rule conjI)
qed

section \<open>The fields of the record\<close>

lemma not_found_ne: "not_found \<noteq> []"
  by (simp add: not_found_def asc_def)

lemma trim_keeps_head:
  assumes "s \<noteq> []" "\<not> is_space (hd s)"
  shows "trim s \<noteq> []" "hd (trim s) = hd s"
proof -
  from assms obtain c cs where s: "s = c # cs" and c: "\<not> is_space c" by (cases s) auto
  have "dropWhile is_space (rev cs @ [c]) = dropWhile is_space (rev cs) @ [c]
      \<or> dropWhile is_space (rev cs @ [c]) = [c]"
    using c by (simp add: dropWhile_append)
  then obtain zs where "dropWhile is_space (rev cs @ [c]) = zs @ [c]" by auto
  with c have t: "trim s = c # rev zs" by (simp add: trim_def s)
  from t show "trim s \<noteq> []" by simp
  from t show "hd (trim s) = hd s" by (simp add: s)
qed

lemma m_seqs_last:
  assumes "y \<in> set (m (seqs (rs @ [g])) s x)" "fst x \<le> length s"
  shows "\<exists>z. fst z \<le> length s \<and> fst x \<le> fst z \<and> y \<in> set (m g s z)"
  using assms
proof (induction rs arbitrary: x)
  case Nil
  then show ?case by (intro exI[of _ x]) simp
next
  case (Cons r rs)
  have "seqs ((r # rs) @ [g]) = Seq r (seqs (rs @ [g]))"
    using seqs_Cons[of "rs @ [g]" r] by simp
  with Cons.prems(1) obtain z where z: "z \<in> set (m r s x)" "y \<in> set (m (seqs (rs @ [g])) s z)"
    by (auto simp: in_m_Seq simp del: m.simps)
  from m_bound[OF Cons.prems(2) z(1)] have "fst z \<le> length s" .
  from Cons.IH[OF z(2) this] m_mono[OF z(1)] show ?case by (meson order_trans)
qed

lemma m_Seq_Cls_start:
  assumes "(j, d) \<in> set (m (Seq (Cls P) r) s (i, c))"
  shows "i < length s" "P (s ! i)" "i < j"
proof -
  from assms obtain k e where ke: "(k, e) \<in> set (m (Cls P) s (i, c))" "(j, d) \<in> set (m r s (k, e))"
    unfolding in_m_Seq_pair by blast
  from ke(1) have "i < length s \<and> P (s ! i) \<and> k = Suc i" unfolding in_m_Cls_pair by blast
  moreover from m_mono[OF ke(2)] have "k \<le> j" by simp
  ultimately show "i < length s" "P (s ! i)" "i < j" by auto
qed

lemma grp_text:
  assumes "mcaps mt k = Some (a, b)" "a < b" "b \<le> length s"
  shows "grp s mt k \<noteq> []" "hd (grp s mt k) = s ! a"
proof -
  from assms have g: "grp s mt k = take (b - a) (drop a s)" by (simp add: grp_def substring_def)
  from assms have "a < length s" by simp
  then have "drop a s = s ! a # drop (Suc a) s" by (simp add: Cons_nth_drop_Suc)
  moreover from assms obtain n where "b - a = Suc n" by (cases "b - a") auto
  ultimately have "grp s mt k = s ! a # take n (drop (Suc a) s)" using g by simp
  then show "grp s mt k \<noteq> []" "hd (grp s mt k) = s ! a" by simp_all
qed

lemma in_m_Grp_caps:
  assumes "(j, d) \<in> set (m (Grp k r) s (i, c))"
  shows "d k = Some (i, j)" "\<exists>e. (j, e) \<in> set (m r s (i, c))"
  using assms unfolding in_m_Grp_pair by auto

lemma replace_first_ne:
  assumes "t \<noteq> []" "m r t (0, Map.empty) = []"
  shows "replace_first r t [] \<noteq> []"
proof (cases "exec r t")
  case None
  with assms(1) show ?thesis by (simp add: replace_first_def)
next
  case (Some mt)
  from exec_Some(5)[OF Some] assms(2) have "mstart mt \<noteq> 0" by (cases "mstart mt") auto
  with assms(1) have "take (mstart mt) t \<noteq> []" by simp
  with Some show ?thesis by (simp add: replace_first_def)
qed

lemma split_loop_shape:
  "split_loop r s p q = [substring s p (length s)] \<or> 2 \<le> length (split_loop r s p q)"
proof (induction r s p q rule: split_loop.induct)
  case (1 r s p q)
  show ?case
  proof (cases "q < length s")
    case False
    then show ?thesis by (simp add: split_loop.simps[of r s p q])
  next
    case True
    show ?thesis
    proof (cases "m r s (q, Map.empty)")
      case Nil
      with True have "split_loop r s p q = split_loop r s p (Suc q)"
        by (simp add: split_loop.simps[of r s p q])
      with "1.IH"(1)[OF True Nil] show ?thesis by simp
    next
      case (Cons y ys)
      show ?thesis
      proof (cases "min (fst y) (length s) = p")
        case same: True
        with True Cons have "split_loop r s p q = split_loop r s p (Suc q)"
          by (simp add: split_loop.simps[of r s p q])
        with "1.IH"(2)[OF True Cons same] show ?thesis by simp
      next
        case diff: False
        let ?e = "min (fst y) (length s)"
        from True Cons diff have eq: "split_loop r s p q = substring s p q # split_loop r s ?e ?e"
          by (simp add: split_loop.simps[of r s p q])
        from "1.IH"(3)[OF True Cons diff] have "1 \<le> length (split_loop r s ?e ?e)"
          by (auto simp del: split_loop.simps)
        with eq show ?thesis by (simp del: split_loop.simps)
      qed
    qed
  qed
qed

lemma join_ne:
  assumes "ws \<noteq> []" "length ws = 1 \<Longrightarrow> hd ws \<noteq> []" "sep \<noteq> []"
  shows "join sep ws \<noteq> []"
proof (cases ws)
  case Nil
  with assms(1) show ?thesis by simp
next
  case (Cons w vs)
  with assms(2,3) show ?thesis by (cases vs) auto
qed

lemma length_toUpperCase: "length (toUpperCase s) = length s"
  by (induction s) (simp_all add: toUpperCase_def upper_cu_def)


lemma alpha_facts:
  assumes "is_alpha c"
  shows "\<not> is_space c" "c \<noteq> 0x30" "c \<noteq> 0x2E" "c \<noteq> 0x22" "c \<noteq> 0x27"
  using assms by (auto simp: is_alpha_def is_upper_def is_lower_def is_space_def is_lineterm_def)

lemma cls_i_alpha: "cls_i is_alpha c \<longleftrightarrow> is_alpha c"
  by (auto simp: cls_i_def swap_case_def is_alpha_def is_upper_def is_lower_def)

lemma last_group:
  assumes "exec r s = Some mt" "r = seqs (rs @ [Grp k g])"
  obtains i c e where "mcaps mt k = Some (i, mend mt)" "i \<le> length s"
    "(mend mt, e) \<in> set (m g s (i, c))"
proof -
  from exec_Some(1,4)[OF assms(1)] assms(2)
  have "(mend mt, mcaps mt) \<in> set (m (seqs (rs @ [Grp k g])) s (mstart mt, Map.empty))"
    and "fst (mstart mt, Map.empty :: caps) \<le> length s"
    by simp_all
  from m_seqs_last[OF this] obtain i c where
    z: "i \<le> length s" "(mend mt, mcaps mt) \<in> set (m (Grp k g) s (i, c))"
    by auto
  from in_m_Grp_caps[OF z(2)] z(1) that show ?thesis by blast
qed

lemma cardNo_text:
  assumes "exec rx_card_no s = Some mt"
  shows "grp s mt 1 \<noteq> []"
proof -
  note e = exec_Some[OF assms]
  let ?X = "Seq (Rep 2 (Some 4) (Cls is_upper)) (Rep 6 (Some 10) (Cls is_digit))"
  from e(4) have "(mend mt, mcaps mt)
      \<in> set (m (Seq Wordb (Seq (Grp 1 ?X) Wordb)) s (mstart mt, Map.empty))"
    unfolding rx_card_no_def seqs.simps .
  then obtain e' where x: "(mend mt, e') \<in> set (m ?X s (mstart mt, Map.empty))"
    and caps: "mcaps mt = e'(1 \<mapsto> (mstart mt, mend mt))"
    unfolding in_m_Seq_pair in_m_Wordb in_m_Grp_pair by auto
  from x obtain n where n: "2 \<le> n"
    "(mend mt, e') \<in> set (m (Rep 6 (Some 10) (Cls is_digit)) s (mstart mt + n, Map.empty))"
    unfolding in_m_Seq_Rep[OF e(1)] by auto
  from m_mono[OF n(2)] n(1) have "mstart mt < mend mt" by simp
  moreover from caps have "mcaps mt 1 = Some (mstart mt, mend mt)" by simp
  ultimately show ?thesis using e(3) by (intro grp_text(1))
qed

lemma voter_name_text:
  assumes "exec rx_voter_name s = Some mt"
  shows "trim (grp s mt 1) \<noteq> []"
proof -
  let ?q = "seqs [Plus (Cls is_lower),
      Plus (seqs [Plus (Cls is_space), Cls is_upper, Opt (Cls is_lower)])]"
  have "rx_voter_name = seqs ([Cls (\<lambda>c. c = 0x4E \<or> c = 0x6E), Lit (asc ''ame''),
           Rep 0 (Some 3) (Cls (\<lambda>c. \<not> is_lineterm c))] @ [Grp 1 (Seq (Cls is_upper) ?q)])"
    by (simp add: rx_voter_name_def)
  from last_group[OF assms this] obtain i c e where
    g: "mcaps mt 1 = Some (i, mend mt)" "i \<le> length s"
    "(mend mt, e) \<in> set (m (Seq (Cls is_upper) ?q) s (i, c))"
    by blast
  note st = m_Seq_Cls_start[OF g(3)]
  from exec_Some(3)[OF assms] have "mend mt \<le> length s" .
  from grp_text[OF g(1) st(3) this] st(2)
  have "grp s mt 1 \<noteq> []" "is_upper (hd (grp s mt 1))" by simp_all
  then show ?thesis
    using alpha_facts(1)[of "hd (grp s mt 1)"] by (intro trim_keeps_head(1)) (simp_all add: is_alpha_def)
qed

lemma voter_name_ne: "voter_name lines \<noteq> []"
proof (induction lines)
  case Nil
  show ?case by (simp add: not_found_ne)
next
  case (Cons line rest)
  show ?case
  proof (cases "exec rx_voter_name line")
    case None
    with Cons show ?thesis by simp
  next
    case (Some mt)
    from voter_name_text[OF Some] Some Cons show ?thesis by simp
  qed
qed

lemma junk_not_at_start:
  assumes "t \<noteq> []" "is_alpha (hd t)"
  shows "m rx_trailing_junk t (0, Map.empty) = []"
proof (rule ccontr)
  assume "m rx_trailing_junk t (0, Map.empty) \<noteq> []"
  then obtain j d where "(j, d) \<in> set (m rx_trailing_junk t (0, Map.empty))"
    by (cases "m rx_trailing_junk t (0, Map.empty)") auto
  then have "(j, d) \<in> set (m (Seq (Plus (Cls (\<lambda>c. c = 0x30 \<or> c = 0x2E \<or> c = 0x22 \<or> c = 0x27
      \<or> is_space c))) Eol) t (0, Map.empty))"
    unfolding rx_trailing_junk_def seqs.simps .
  from in_m_Seq_Rep[of 0 t, THEN iffD1, OF _ this] obtain n where "1 \<le> n"
    "run (\<lambda>c. c = 0x30 \<or> c = 0x2E \<or> c = 0x22 \<or> c = 0x27 \<or> is_space c) t 0 (0 + n)"
    by (auto simp del: m.simps)
  then have "t ! 0 = 0x30 \<or> t ! 0 = 0x2E \<or> t ! 0 = 0x22 \<or> t ! 0 = 0x27 \<or> is_space (t ! 0)"
    by (auto simp: run_def)
  moreover from assms(1) have "t ! 0 = hd t" by (simp add: hd_conv_nth)
  ultimately show False using alpha_facts[OF assms(2)] by auto
qed

lemma father_label_text:
  assumes "exec rx_father_label s = Some mt"
  shows "replace_first rx_trailing_junk (trim (grp s mt 1)) [] \<noteq> []"
proof -
  let ?q = "Rep 2 (Some 30) (Cls (\<lambda>c. cls_i is_alpha c \<or> is_space c))"
  have "rx_father_label = seqs ([LitI (asc ''Father''), Opt (Lit [0x27]), Opt (LitI (asc ''s'')),
           Star (Cls is_space), LitI (asc ''N''), Star (Cls (cls_i is_lower)),
           Star (Cls is_space), Cls (\<lambda>c. c = 0x3B \<or> c = 0x3A \<or> c = 0x2D),
           Star (Cls is_space)] @ [Grp 1 (Seq (Cls (cls_i is_alpha)) ?q)])"
    by (simp add: rx_father_label_def)
  from last_group[OF assms this] obtain i c e where
    g: "mcaps mt 1 = Some (i, mend mt)" "i \<le> length s"
    "(mend mt, e) \<in> set (m (Seq (Cls (cls_i is_alpha)) ?q) s (i, c))"
    by blast
  note st = m_Seq_Cls_start[OF g(3)]
  from exec_Some(3)[OF assms] have "mend mt \<le> length s" .
  from grp_text[OF g(1) st(3) this] st(2)
  have ne: "grp s mt 1 \<noteq> []" and al: "is_alpha (hd (grp s mt 1))"
    by (simp_all add: cls_i_alpha)
  from trim_keeps_head[OF ne alpha_facts(1)[OF al]] al
  have "trim (grp s mt 1) \<noteq> []" "is_alpha (hd (trim (grp s mt 1)))" by simp_all
  then show ?thesis by (intro replace_first_ne junk_not_at_start)
qed

lemma soundara_text:
  assumes "exec rx_soundara s = Some mt"
  shows "grp s mt 1 \<noteq> []"
proof -
  have "rx_soundara = seqs ([Wordb] @ [Grp 1 (Seq (Lit (asc ''Soundara'')) (Plus (Cls is_alpha)))])"
    by (simp add: rx_soundara_def)
  from last_group[OF assms this] obtain i c e where
    g: "mcaps mt 1 = Some (i, mend mt)" "i \<le> length s"
    "(mend mt, e) \<in> set (m (Seq (Lit (asc ''Soundara'')) (Plus (Cls is_alpha))) s (i, c))"
    by blast
  from g(3) obtain k e' where "(k, e') \<in> set (m (Lit (asc ''Soundara'')) s (i, c))"
    "(mend mt, e) \<in> set (m (Plus (Cls is_alpha)) s (k, e'))"
    unfolding in_m_Seq_pair by blast
  then have "k = i + length (asc ''Soundara'')" "k \<le> mend mt"
    using m_mono[of "(mend mt, e)" "Plus (Cls is_alpha)" s "(k, e')"]
    unfolding in_m_Lit by simp_all
  then have "i < mend mt" by (simp add: asc_def)
  from grp_text(1)[OF g(1) this exec_Some(3)[OF assms]] show ?thesis .
qed

lemma labelled_dob_ne: "labelled_dob r text = Some s \<Longrightarrow> s \<noteq> []"
  by (auto simp: labelled_dob_def split: option.splits if_splits)

lemma first_sane_ne: "first_sane ds = Some s \<Longrightarrow> s \<noteq> []"
  by (induction ds) (auto split: option.splits if_splits)

lemma scan_dob_lines_ne: "scan_dob_lines lines \<noteq> []"
  by (induction lines) (auto simp: not_found_ne first_sane_ne split: option.splits)

lemma extractDobFromLines_ne: "extractDobFromLines text lines \<noteq> []"
  by (auto simp: extractDobFromLines_def labelled_dob_ne scan_dob_lines_ne split: option.splits)

lemma extractGender_ne: "extractGender text \<noteq> []"
  by (simp add: extractGender_def not_found_def asc_def split: option.splits)

lemma smartTitle_ne:
  assumes "isName line"
  shows "smartTitle line \<noteq> []"
proof -
  define t where "t = trim (replace_first rx_trailing_digits
      (trim (replace_first rx_leading_junk line [])) [])"
  define f where "f = (\<lambda>w. let c = remove_all rx_dot w
                     in if length c \<le> 2 then toUpperCase w
                        else toUpperCase (take 1 w) @ toLowerCase (drop 1 w))"
  from assms have len: "4 \<le> length t"
    unfolding isName_def Let_def t_def by (auto split: if_splits)
  then have tne: "t \<noteq> []" by auto
  have st: "smartTitle line = join (asc '' '') (map f (split_rx rx_spaces t))"
    by (simp add: smartTitle_def t_def f_def Let_def)
  have fne: "f w \<noteq> []" if "w \<noteq> []" for w
  proof -
    from that have "toUpperCase w \<noteq> []" "toUpperCase (take 1 w) \<noteq> []"
      using length_toUpperCase[of w] length_toUpperCase[of "take 1 w"] by auto
    then show ?thesis by (simp add: f_def Let_def)
  qed
  from tne have sp: "split_rx rx_spaces t = split_loop rx_spaces t 0 0"
    by (simp add: split_rx_def)
  from split_loop_shape[of rx_spaces t 0 0]
  have "split_rx rx_spaces t = [t] \<or> 2 \<le> length (split_rx rx_spaces t)"
    by (simp add: sp substring_def del: split_loop.simps)
  then show ?thesis
  proof
    assume "split_rx rx_spaces t = [t]"
    with fne[OF tne] show ?thesis by (simp add: st)
  next
    assume two: "2 \<le> length (split_rx rx_spaces t)"
    show ?thesis unfolding st
    proof (rule join_ne)
      from two show "map f (split_rx rx_spaces t) \<noteq> []" by auto
      from two show "hd (map f (split_rx rx_spaces t)) \<noteq> []"
        if "length (map f (split_rx rx_spaces t)) = 1"
        using that by simp
      show "asc '' '' \<noteq> []" by (simp add: asc_def)
    qed
  qed
qed


lemma runVoter_returns:
  assumes "runVoter e file st = (Inr r, st')"
  shows "\<exists>a b. r = extractVoterFields a b"
  using assms unfolding runVoter_def ocrBlob_def Let_def
  by (auto split: sum.splits)

lemma runAadhaar_returns:
  assumes "runAadhaar e file st = (Inr r, st')"
  shows "\<exists>a b. r = extractAadhaarFields a b"
  using assms unfolding runAadhaar_def ocrBlob_def Let_def
  by (auto split: sum.splits)

lemma runOcr_returns:
  assumes "runOcr e file st = (Inr r, st')"
  shows "(\<exists>a b. r = extractVoterFields a b) \<or> (\<exists>a b. r = extractAadhaarFields a b)"
proof (cases "cropToBlob e file (0, 0, 100, 22)")
  case (Inl err)
  with assms show ?thesis by (simp add: runOcr_def)
next
  case crop: (Inr blob)
  let ?st1 = "st\<lparr>ui_stage := asc ''Detecting document type...'', ui_progress := 5\<rparr>"
  show ?thesis
  proof (cases "recognize e blob (asc ''detect'')")
    case (Inl msg)
    with crop assms show ?thesis by (simp add: runOcr_def ocrBlob_def)
  next
    case (Inr t)
    let ?st2 = "?st1\<lparr>ocr_log := ocr_log ?st1 @ [(asc ''detect'', Inr t)]\<rparr>"
    show ?thesis
    proof (cases "detectDocType t = asc ''voter''")
      case True
      with assms crop Inr have "runVoter e file ?st2 = (Inr r, st')"
        by (simp add: runOcr_def ocrBlob_def)
      from runVoter_returns[OF this] show ?thesis by blast
    next
      case False
      with assms crop Inr have "runAadhaar e file ?st2 = (Inr r, st')"
        by (simp add: runOcr_def ocrBlob_def)
      from runAadhaar_returns[OF this] show ?thesis by blast
    qed
  qed
qed

lemma aadhaar_record_fields:
  "\<exists>t. docType (extractAadhaarFields r1Text r2Text) = Str t \<and> t \<noteq> []"
  "\<exists>t. name (extractAadhaarFields r1Text r2Text) = Str t \<and> t \<noteq> []"
  "\<exists>t. dob (extractAadhaarFields r1Text r2Text) = Str t \<and> t \<noteq> []"
  "\<exists>t. gender (extractAadhaarFields r1Text r2Text) = Str t \<and> t \<noteq> []"
  "\<exists>t. aadhaar (extractAadhaarFields r1Text r2Text) = Str t \<and> t \<noteq> []"
proof -
  show "\<exists>t. docType (extractAadhaarFields r1Text r2Text) = Str t \<and> t \<noteq> []"
    by (simp add: extractAadhaarFields_fields asc_def)
  show "\<exists>t. name (extractAadhaarFields r1Text r2Text) = Str t \<and> t \<noteq> []"
  proof (cases "List.find isName
      (filter (\<lambda>l. l \<noteq> []) (map trim (split_rx rx_newline r1Text)))")
    case None
    then show ?thesis by (simp add: extractAadhaarFields_fields not_found_ne)
  next
    case (Some line)
    then have "isName line" by (auto simp: find_Some_iff)
    from smartTitle_ne[OF this] Some show ?thesis by (simp add: extractAadhaarFields_fields)
  qed
  show "\<exists>t. dob (extractAadhaarFields r1Text r2Text) = Str t \<and> t \<noteq> []"
    by (simp add: extractAadhaarFields_fields extractDobFromLines_ne)
  show "\<exists>t. gender (extractAadhaarFields r1Text r2Text) = Str t \<and> t \<noteq> []"
    by (simp add: extractAadhaarFields_fields extractGender_ne)
  show "\<exists>t. aadhaar (extractAadhaarFields r1Text r2Text) = Str t \<and> t \<noteq> []"
    by (simp add: extractAadhaarFields_fields not_found_ne asc_def split: option.splits)
qed

lemma voter_record_fields:
  "\<exists>t. docType (extractVoterFields textOrig text2x) = Str t \<and> t \<noteq> []"
  "\<exists>t. name (extractVoterFields textOrig text2x) = Str t \<and> t \<noteq> []"
  "\<exists>t. dob (extractVoterFields textOrig text2x) = Str t \<and> t \<noteq> []"
  "\<exists>t. gender (extractVoterFields textOrig text2x) = Str t \<and> t \<noteq> []"
  "\<exists>t. cardNo (extractVoterFields textOrig text2x) = Str t \<and> t \<noteq> []"
  "\<exists>t. fatherName (extractVoterFields textOrig text2x) = Str t \<and> t \<noteq> []"
proof -
  show "\<exists>t. docType (extractVoterFields textOrig text2x) = Str t \<and> t \<noteq> []"
    by (simp add: extractVoterFields_fields asc_def)
  show "\<exists>t. name (extractVoterFields textOrig text2x) = Str t \<and> t \<noteq> []"
    by (simp add: extractVoterFields_fields voter_name_ne)
  show "\<exists>t. dob (extractVoterFields textOrig text2x) = Str t \<and> t \<noteq> []"
    by (simp add: extractVoterFields_fields extractDobFromLines_ne)
  show "\<exists>t. gender (extractVoterFields textOrig text2x) = Str t \<and> t \<noteq> []"
    by (simp add: extractVoterFields_fields extractGender_ne)
  show "\<exists>t. cardNo (extractVoterFields textOrig text2x) = Str t \<and> t \<noteq> []"
    by (simp add: extractVoterFields_fields not_found_ne cardNo_text[unfolded One_nat_def]
        split: option.splits)
  show "\<exists>t. fatherName (extractVoterFields textOrig text2x) = Str t \<and> t \<noteq> []"
    by (simp add: extractVoterFields_fields not_found_ne
        father_label_text[unfolded One_nat_def] soundara_text[unfolded One_nat_def]
        split: option.splits)
qed


text \<open>
  C1, as the code has it. In the record either extractor returns, the document type, the
  name, the date of birth and the gender are strings that are not empty: a value that was
  read, or the sentinel. So are the number of an Aadhaar record and the card number and
  the father's name of a voter record. The fields that do not belong to the kind of
  document are \<^verbatim>\<open>null\<close>: the card number and the father's name of an Aadhaar record, the
  Aadhaar number of a voter record. No field is left out, and the record a run returns
  is one of the two.
\<close>

theorem fields_are_text_or_null:
  "(\<exists>t. docType (extractAadhaarFields r1Text r2Text) = Str t \<and> t \<noteq> [])
   \<and> (\<exists>t. name (extractAadhaarFields r1Text r2Text) = Str t \<and> t \<noteq> [])
   \<and> (\<exists>t. dob (extractAadhaarFields r1Text r2Text) = Str t \<and> t \<noteq> [])
   \<and> (\<exists>t. gender (extractAadhaarFields r1Text r2Text) = Str t \<and> t \<noteq> [])
   \<and> (\<exists>t. aadhaar (extractAadhaarFields r1Text r2Text) = Str t \<and> t \<noteq> [])
   \<and> cardNo (extractAadhaarFields r1Text r2Text) = Null
   \<and> fatherName (extractAadhaarFields r1Text r2Text) = Null
   \<and> (\<exists>t. docType (extractVoterFields textOrig text2x) = Str t \<and> t \<noteq> [])
   \<and> (\<exists>t. name (extractVoterFields textOrig text2x) = Str t \<and> t \<noteq> [])
   \<and> (\<exists>t. dob (extractVoterFields textOrig text2x) = Str t \<and> t \<noteq> [])
   \<and> (\<exists>t. gender (extractVoterFields textOrig text2x) = Str t \<and> t \<noteq> [])
   \<and> (\<exists>t. cardNo (extractVoterFields textOrig text2x) = Str t \<and> t \<noteq> [])
   \<and> (\<exists>t. fatherName (extractVoterFields textOrig text2x) = Str t \<and> t \<noteq> [])
   \<and> aadhaar (extractVoterFields textOrig text2x) = Null
   \<and> (runOcr e file st = (Inr r, st') \<longrightarrow>
        (\<exists>t. docType r = Str t \<and> t \<noteq> []) \<and> (\<exists>t. name r = Str t \<and> t \<noteq> [])
      \<and> (\<exists>t. dob r = Str t \<and> t \<noteq> []) \<and> (\<exists>t. gender r = Str t \<and> t \<noteq> [])
      \<and> ((\<exists>t. aadhaar r = Str t \<and> t \<noteq> []) \<and> cardNo r = Null \<and> fatherName r = Null
          \<or> aadhaar r = Null \<and> (\<exists>t. cardNo r = Str t \<and> t \<noteq> [])
             \<and> (\<exists>t. fatherName r = Str t \<and> t \<noteq> [])))"
proof -
  have run: "runOcr e file st = (Inr r, st') \<longrightarrow>
        (\<exists>t. docType r = Str t \<and> t \<noteq> []) \<and> (\<exists>t. name r = Str t \<and> t \<noteq> [])
      \<and> (\<exists>t. dob r = Str t \<and> t \<noteq> []) \<and> (\<exists>t. gender r = Str t \<and> t \<noteq> [])
      \<and> ((\<exists>t. aadhaar r = Str t \<and> t \<noteq> []) \<and> cardNo r = Null \<and> fatherName r = Null
          \<or> aadhaar r = Null \<and> (\<exists>t. cardNo r = Str t \<and> t \<noteq> [])
             \<and> (\<exists>t. fatherName r = Str t \<and> t \<noteq> []))"
  proof
    assume "runOcr e file st = (Inr r, st')"
    from runOcr_returns[OF this] consider
      (voter) a b where "r = extractVoterFields a b"
      | (aadhaar) a b where "r = extractAadhaarFields a b"
      by blast
    then show "(\<exists>t. docType r = Str t \<and> t \<noteq> []) \<and> (\<exists>t. name r = Str t \<and> t \<noteq> [])
      \<and> (\<exists>t. dob r = Str t \<and> t \<noteq> []) \<and> (\<exists>t. gender r = Str t \<and> t \<noteq> [])
      \<and> ((\<exists>t. aadhaar r = Str t \<and> t \<noteq> []) \<and> cardNo r = Null \<and> fatherName r = Null
          \<or> aadhaar r = Null \<and> (\<exists>t. cardNo r = Str t \<and> t \<noteq> [])
             \<and> (\<exists>t. fatherName r = Str t \<and> t \<noteq> []))"
    proof cases
      case voter
      show ?thesis unfolding voter
        by (intro conjI disjI2 voter_record_fields extractVoterFields_fields(7))
    next
      case aadhaar
      show ?thesis unfolding aadhaar
        by (intro conjI disjI1 aadhaar_record_fields extractAadhaarFields_fields(6,7))
    qed
  qed
  show ?thesis
    by (intro conjI aadhaar_record_fields voter_record_fields extractAadhaarFields_fields(6,7)
        extractVoterFields_fields(7) run)
qed

theorem fields_are_text_or_null_witness:
  "fst (runOcr sample_env () idle_app) = Inr sample_record
   \<and> (\<exists>t. name sample_record = Str t \<and> t \<noteq> [])
   \<and> (\<exists>t. aadhaar sample_record = Str t \<and> t \<noteq> [])
   \<and> cardNo sample_record = Null \<and> fatherName sample_record = Null"
proof -
  have run: "fst (runOcr sample_env () idle_app) = Inr sample_record"
    by (simp add: ev)
  then obtain st2 where "runOcr sample_env () idle_app = (Inr sample_record, st2)"
    by (cases "runOcr sample_env () idle_app") auto
  with fields_are_text_or_null[where e = sample_env and ?file = "()" and st = idle_app
      and r = sample_record and st' = st2]
  have "\<exists>t. name sample_record = Str t \<and> t \<noteq> []"
    "(\<exists>t. aadhaar sample_record = Str t \<and> t \<noteq> []) \<and> cardNo sample_record = Null
       \<and> fatherName sample_record = Null
     \<or> aadhaar sample_record = Null \<and> (\<exists>t. cardNo sample_record = Str t \<and> t \<noteq> [])
       \<and> (\<exists>t. fatherName sample_record = Str t \<and> t \<noteq> [])"
    by blast+
  moreover have "aadhaar sample_record \<noteq> Null" by (simp add: sample_record_def)
  ultimately show ?thesis using run by blast
qed


text \<open>
  C1 as stated fails: both extractors write \<^verbatim>\<open>null\<close> into the fields of the other kind
  of document.
\<close>

theorem inapplicable_fields_are_null:
  "cardNo (extractAadhaarFields sample_r1 (asc ''1234 5678 9012'')) = Null
   \<and> fatherName (extractAadhaarFields sample_r1 (asc ''1234 5678 9012'')) = Null
   \<and> aadhaar (extractVoterFields (asc ''SOL3248432'') (asc ''ELECTION'')) = Null"
  by (simp add: extractAadhaarFields_fields extractVoterFields_fields)

section \<open>The name detector\<close>











lemma substring_all:
  assumes "\<And>k. i \<le> k \<Longrightarrow> k < j \<Longrightarrow> k < length s \<Longrightarrow> Q (s ! k)"
  shows "\<forall>x \<in> set (substring s i j). Q x"
proof
  fix x
  assume "x \<in> set (substring s i j)"
  then obtain n where n: "n < length (substring s i j)" "x = substring s i j ! n"
    by (auto simp: in_set_conv_nth)
  then have "n < j - i" "i + n < length s" by (auto simp: substring_def)
  with n(2) have "x = s ! (i + n)" by (simp add: substring_def)
  with assms[of "i + n"] \<open>n < j - i\<close> \<open>i + n < length s\<close> show "Q x" by simp
qed















section \<open>What the date sanitizer receives\<close>

text \<open>
  The three calls of \<open>sanitizeDob\<close> pass the first group of a match of one of the two
  labelled expressions, or a match of the date expression with the \<^verbatim>\<open>g\<close> flag. Each is
  a date-shaped token.
\<close>

lemma substring_split:
  assumes "i \<le> k" "k \<le> j"
  shows "substring s i j = substring s i k @ substring s k j"
proof -
  from assms have "j - i = (k - i) + (j - k)" by simp
  then have "take (j - i) (drop i s) = take (k - i) (drop i s) @ take (j - k) (drop (k - i) (drop i s))"
    by (simp only: take_add)
  with assms show ?thesis by (simp add: substring_def)
qed

lemma substring_single:
  assumes "k < length s"
  shows "substring s k (Suc k) = [s ! k]"
  using assms by (simp add: substring_def take_Suc_conv_app_nth)

lemma substring_length:
  assumes "j \<le> length s"
  shows "length (substring s i j) = j - i"
  using assms by (simp add: substring_def)

lemma run_substring:
  assumes "run P s i j"
  shows "list_all P (substring s i j)"
  using substring_all[of i j s P] assms by (simp add: run_def list_all_iff)

lemma date_shape_captures:
  assumes "(j, e) \<in> set (m rx_date_shape s (i, c))" "i \<le> length s"
  obtains d s1 mo s2 y where "substring s i j = d @ [s1] @ mo @ [s2] @ y"
    "d \<noteq> []" "length d \<le> 2" "list_all is_digit d"
    "mo \<noteq> []" "length mo \<le> 2" "list_all is_digit mo"
    "length y = 4" "list_all is_digit y" "is_datesep s1" "is_datesep s2"
proof -
  let ?r5 = "Rep 4 (Some 4) (Cls is_digit)"
  let ?r4 = "Seq (Cls is_datesep) ?r5"
  let ?r3 = "Seq (Rep 1 (Some 2) (Cls is_digit)) ?r4"
  let ?r2 = "Seq (Cls is_datesep) ?r3"
  from assms(1) have "(j, e) \<in> set (m (Seq (Rep 1 (Some 2) (Cls is_digit)) ?r2) s (i, c))"
    unfolding rx_date_shape_def seqs.simps .
  then obtain n1 where n1: "1 \<le> n1" "n1 \<le> 2" "i + n1 \<le> length s" "run is_digit s i (i + n1)"
    and 2: "(j, e) \<in> set (m ?r2 s (i + n1, c))"
    unfolding in_m_Seq_Rep[OF assms(2)] by auto
  from 2 obtain k2 e2 where "(k2, e2) \<in> set (m (Cls is_datesep) s (i + n1, c))"
    and 3: "(j, e) \<in> set (m ?r3 s (k2, e2))"
    unfolding in_m_Seq_pair by blast
  then have s1: "i + n1 < length s" "is_datesep (s ! (i + n1))" and k2: "k2 = Suc (i + n1)"
    and e2: "e2 = c"
    unfolding in_m_Cls_pair by simp_all
  from s1(1) k2 have k2le: "k2 \<le> length s" by simp
  from 3 obtain n2 where n2: "1 \<le> n2" "n2 \<le> 2" "k2 + n2 \<le> length s" "run is_digit s k2 (k2 + n2)"
    and 4: "(j, e) \<in> set (m ?r4 s (k2 + n2, e2))"
    unfolding in_m_Seq_Rep[OF k2le] by auto
  from 4 obtain k4 e4 where "(k4, e4) \<in> set (m (Cls is_datesep) s (k2 + n2, e2))"
    and 5: "(j, e) \<in> set (m ?r5 s (k4, e4))"
    unfolding in_m_Seq_pair by blast
  then have s2: "k2 + n2 < length s" "is_datesep (s ! (k2 + n2))" and k4: "k4 = Suc (k2 + n2)"
    unfolding in_m_Cls_pair by simp_all
  from s2(1) k4 have k4le: "k4 \<le> length s" by simp
  from 5 have y: "j = k4 + 4" "j \<le> length s" "run is_digit s k4 j"
    unfolding in_m_Rep_Cls[OF k4le] by auto
  let ?d = "substring s i (i + n1)" and ?mo = "substring s k2 (k2 + n2)" and ?y = "substring s k4 j"
  have "substring s i j = ?d @ substring s (i + n1) j"
    using k2 k4 y(1) by (intro substring_split) simp_all
  also have "substring s (i + n1) j = substring s (i + n1) k2 @ substring s k2 j"
    using k2 k4 y(1) by (intro substring_split) simp_all
  also have "substring s (i + n1) k2 = [s ! (i + n1)]"
    unfolding k2 using s1(1) by (rule substring_single)
  also have "substring s k2 j = ?mo @ substring s (k2 + n2) j"
    using k4 y(1) by (intro substring_split) simp_all
  also have "substring s (k2 + n2) j = substring s (k2 + n2) k4 @ ?y"
    using k4 y(1) by (intro substring_split) simp_all
  also have "substring s (k2 + n2) k4 = [s ! (k2 + n2)]"
    unfolding k4 using s2(1) by (rule substring_single)
  finally have dec: "substring s i j = ?d @ [s ! (i + n1)] @ ?mo @ [s ! (k2 + n2)] @ ?y"
    by simp
  have ld: "length ?d = n1" using substring_length[OF n1(3), of i] by simp
  have lm: "length ?mo = n2" using substring_length[OF n2(3), of k2] by simp
  have ly: "length ?y = 4" using substring_length[OF y(2), of k4] y(1) by simp
  from ld n1 have d: "?d \<noteq> []" "length ?d \<le> 2" by auto
  from lm n2 have mo: "?mo \<noteq> []" "length ?mo \<le> 2" by auto
  from that[OF dec d run_substring[OF n1(4)] mo run_substring[OF n2(4)] ly
      run_substring[OF y(3)] s1(2) s2(2)]
  show ?thesis .
qed


lemma labelled_capture_is_date_token:
  assumes "exec r text = Some mt" "r = rx_dob_label \<or> r = rx_dob_label_tamil"
  obtains d s1 mo s2 y where "grp text mt 1 = d @ [s1] @ mo @ [s2] @ y"
    "d \<noteq> []" "length d \<le> 2" "list_all is_digit d"
    "mo \<noteq> []" "length mo \<le> 2" "list_all is_digit mo"
    "length y = 4" "list_all is_digit y" "is_datesep s1" "is_datesep s2"
proof -
  have "rx_dob_label = seqs ([alts [LitI (asc ''DOB''), LitI (asc ''D0B''),
                 seqs [LitI (asc ''Date''), Star (Cls is_space), LitI (asc ''of''),
                       Star (Cls is_space), LitI (asc ''Birth'')],
                 LitI (asc ''Age'')],
           Star (Cls is_space),
           Plus (Cls (\<lambda>c. c = 0x3A \<or> c = 0x2F \<or> c = 0x2D \<or> is_space c))]
        @ [Grp 1 rx_date_shape])"
    by (simp add: rx_dob_label_def)
  moreover have "rx_dob_label_tamil
      = seqs ([alts [seqs [LitI tam_pirantha, Star (Cls is_space), LitI tam_naal],
                 LitI tam_pirantha],
           Star (Cls is_space),
           Opt (Cls (\<lambda>c. c = 0x3A \<or> c = 0x2F \<or> c = 0x2D)),
           Star (Cls is_space)] @ [Grp 1 rx_date_shape])"
    by (simp add: rx_dob_label_tamil_def)
  ultimately obtain rs where "r = seqs (rs @ [Grp 1 rx_date_shape])"
    using assms(2) by blast
  from last_group[OF assms(1) this] obtain i c e where
    g: "mcaps mt 1 = Some (i, mend mt)" "i \<le> length text"
    "(mend mt, e) \<in> set (m rx_date_shape text (i, c))"
    by blast
  from g(1) have "grp text mt 1 = substring text i (mend mt)" by (simp add: grp_def)
  with date_shape_captures[OF g(3) g(2)] that show ?thesis by metis
qed

lemma spans_from_matches:
  assumes "(a, b) \<in> set (spans_from r s i)"
  shows "a \<le> length s \<and> (\<exists>caps. (b, caps) \<in> set (m r s (a, Map.empty)))"
  using assms
proof (induction r s i rule: spans_from.induct)
  case (1 r s i)
  show ?case
  proof (cases "length s < i")
    case True
    with "1.prems" show ?thesis by (simp add: spans_from.simps[of r s i] del: spans_from.simps)
  next
    case le: False
    show ?thesis
    proof (cases "search r s i (Suc (length s) - i)")
      case None
      with le "1.prems" show ?thesis
        by (simp add: spans_from.simps[of r s i] del: spans_from.simps)
    next
      case (Some mt)
      let ?next = "if mend mt = mstart mt then Suc (mend mt) else mend mt"
      from le Some "1.prems" consider (hd) "(a, b) = (mstart mt, mend mt)"
        | (tl) "(a, b) \<in> set (spans_from r s ?next)"
        by (auto simp: spans_from.simps[of r s i] simp del: spans_from.simps)
      then show ?thesis
      proof cases
        case hd
        from search_Some[OF Some] le obtain ys where
          "mstart mt \<le> length s" "m r s (mstart mt, Map.empty) = (mend mt, mcaps mt) # ys"
          by auto
        with hd show ?thesis by auto
      next
        case tl
        from "1.IH"[OF le Some tl] show ?thesis .
      qed
    qed
  qed
qed

lemma scanned_match_is_date_token:
  assumes "x \<in> set (match_all rx_date_token line)"
  obtains d s1 mo s2 y where "x = d @ [s1] @ mo @ [s2] @ y"
    "d \<noteq> []" "length d \<le> 2" "list_all is_digit d"
    "mo \<noteq> []" "length mo \<le> 2" "list_all is_digit mo"
    "length y = 4" "list_all is_digit y" "is_datesep s1" "is_datesep s2"
proof -
  from assms obtain a b where ab: "(a, b) \<in> set (spans_from rx_date_token line 0)"
    and x: "x = substring line a b"
    by (auto simp: match_all_def simp del: spans_from.simps)
  from spans_from_matches[OF ab] obtain caps where a: "a \<le> length line"
    and mt: "(b, caps) \<in> set (m rx_date_token line (a, Map.empty))"
    by blast
  from mt have "(b, caps) \<in> set (m (Seq Wordb (Seq (Grp 1 rx_date_shape) Wordb)) line
      (a, Map.empty))"
    unfolding rx_date_token_def seqs.simps .
  then obtain e where "(b, e) \<in> set (m rx_date_shape line (a, Map.empty))"
    unfolding in_m_Seq_pair in_m_Wordb in_m_Grp_pair by auto
  from date_shape_captures[OF this a] x that show ?thesis by metis
qed

end
